theory Spec2Isabelle
  imports Complex_Main "HOL-Library.Sublist"
begin

section \<open>Files and JSON values\<close>

text \<open>
  A file: its content (\<open>None\<close> while it does not exist) and, as a ghost field, every
  content that was written to it, oldest first.
\<close>

record 'a fsfile =
  content :: "'a option"
  history :: "'a list"

definition no_file :: "'a fsfile" where
  "no_file = \<lparr>content = None, history = []\<rparr>"

text \<open>\<open>writeFileSync\<close> either writes the whole content or throws.\<close>

datatype fs_write = WriteOk | WriteThrows string

definition writeFileSync :: "'a \<Rightarrow> 'a fsfile \<Rightarrow> 'a fsfile" where
  "writeFileSync v f = \<lparr>content = Some v, history = history f @ [v]\<rparr>"

text \<open>
  JSON values, as \<open>JSON.parse\<close> returns them and \<open>JSON.stringify\<close> prints them. An
  object is the map from its keys to their values (\<open>None\<close>: the key is absent, and
  reading it gives \<open>undefined\<close>). A number is a rational, or \<open>Infinity\<close> or \<open>-Infinity\<close>
  (\<open>JInf True\<close>, \<open>JInf False\<close>), which \<open>JSON.parse\<close> returns for a literal beyond the
  range of the doubles such as \<open>1e400\<close>. A string is the list of the code units that
  \<open>length\<close> and \<open>slice\<close> count.
\<close>

datatype json =
    JNull
  | JBool bool
  | JNum rat
  | JInf bool
  | JStr string
  | JArr "json list"
  | JObj "string \<Rightarrow> json option"

type_synonym jsobject = "string \<Rightarrow> json option"

datatype js_error = TypeError | SyntaxError | IOError

text \<open>
  What \<open>JSON.parse\<close> reads back from what \<open>JSON.stringify\<close> has printed:
  \<open>JSON.stringify\<close> prints \<open>null\<close> for an infinite number, anywhere in the value.
\<close>

primrec stringify_parse :: "json \<Rightarrow> json" where
  "stringify_parse JNull = JNull"
| "stringify_parse (JBool b) = JBool b"
| "stringify_parse (JNum n) = JNum n"
| "stringify_parse (JInf b) = JNull"
| "stringify_parse (JStr s) = JStr s"
| "stringify_parse (JArr xs) = JArr (map stringify_parse xs)"
| "stringify_parse (JObj m) = JObj (map_option stringify_parse \<circ> m)"

text \<open>What JavaScript takes for true in \<open>!x\<close>, \<open>x || y\<close> and \<open>x ? y : z\<close>.\<close>

fun truthy :: "json \<Rightarrow> bool" where
  "truthy JNull = False"
| "truthy (JBool b) = b"
| "truthy (JNum n) = (n \<noteq> 0)"
| "truthy (JInf b) = True"
| "truthy (JStr s) = (s \<noteq> [])"
| "truthy (JArr xs) = True"
| "truthy (JObj m) = True"

definition truthy_opt :: "json option \<Rightarrow> bool" where
  "truthy_opt x = (case x of None \<Rightarrow> False | Some v \<Rightarrow> truthy v)"

text \<open>The key of the n-th element of an array or string: \<open>n\<close> in decimal.\<close>

definition digit :: "nat \<Rightarrow> char" where
  "digit d = char_of (48 + d)"

fun index_key :: "nat \<Rightarrow> string" where
  "index_key n = (if n < 10 then [digit n] else index_key (n div 10) @ [digit (n mod 10)])"

text \<open>
  The properties that a spread \<open>{...v}\<close> copies: those of an object, the elements of an
  array and the characters of a string under their indices, and none of any other value.
\<close>

fun own_props :: "json \<Rightarrow> jsobject" where
  "own_props (JObj m) = m"
| "own_props (JArr xs) = map_of (zip (map index_key [0..<length xs]) xs)"
| "own_props (JStr s) = map_of (zip (map index_key [0..<length s]) (map (\<lambda>c. JStr [c]) s))"
| "own_props v = Map.empty"

text \<open>
  Reading the property \<open>k\<close> of \<open>v\<close>: a TypeError on \<open>null\<close>. (Only the four names that
  \<open>loadConfig\<close> reads are looked up, none of which is inherited from a prototype.)
\<close>

definition get_prop :: "json \<Rightarrow> string \<Rightarrow> js_error + json option" where
  "get_prop v k = (case v of JNull \<Rightarrow> Inl TypeError | _ \<Rightarrow> Inr (own_props v k))"

text \<open>The operand \<open>x || {}\<close> of a spread.\<close>

definition or_empty :: "json option \<Rightarrow> json" where
  "or_empty x = (if truthy_opt x then (case x of Some v \<Rightarrow> v | None \<Rightarrow> JObj Map.empty)
                 else JObj Map.empty)"

section \<open>The configuration (config.ts)\<close>

definition DEFAULT_VOICE_SETTINGS :: jsobject where
  "DEFAULT_VOICE_SETTINGS =
     [''speed'' \<mapsto> JNum 1, ''stability'' \<mapsto> JNum (1 / 2),
      ''similarityBoost'' \<mapsto> JNum (3 / 4), ''style'' \<mapsto> JNum 0]"

definition DEFAULT_AUTO_SUBMIT :: jsobject where
  "DEFAULT_AUTO_SUBMIT =
     [''enabled'' \<mapsto> JBool False, ''silenceDelay'' \<mapsto> JNum 3,
      ''minTextLength'' \<mapsto> JNum 15, ''targetApp'' \<mapsto> JStr ''Cursor'']"

definition DEFAULT_WISPR_LOOP :: jsobject where
  "DEFAULT_WISPR_LOOP =
     [''enabled'' \<mapsto> JBool False, ''ttsDelay'' \<mapsto> JNum 8,
      ''silenceThreshold'' \<mapsto> JNum (1 / 50), ''silenceDuration'' \<mapsto> JNum 2,
      ''wisprHotkey'' \<mapsto> JStr ''shift+ctrl'',
      ''manualTriggerHotkey'' \<mapsto> JStr ''ctrl+shift+l'']"

definition DEFAULT_CONFIG :: jsobject where
  "DEFAULT_CONFIG =
     [''apiKey'' \<mapsto> JStr [], ''voiceId'' \<mapsto> JStr ''21m00Tcm4TlvDq8ikWAM'',
      ''model'' \<mapsto> JStr ''eleven_flash_v2_5'',
      ''voiceSettings'' \<mapsto> JObj DEFAULT_VOICE_SETTINGS,
      ''autoSubmit'' \<mapsto> JObj DEFAULT_AUTO_SUBMIT,
      ''wisprLoop'' \<mapsto> JObj DEFAULT_WISPR_LOOP,
      ''autoListen'' \<mapsto> JBool True]"

text \<open>
  What reading config.json gives: the file does not exist, \<open>readFileSync\<close> throws,
  \<open>JSON.parse\<close> throws, or the file holds the text of a JSON value.
\<close>

datatype config_file = Absent | ReadThrows | ParseThrows | Holds json

text \<open>The object literal that \<open>loadConfig\<close> returns for the parsed value.\<close>

definition merge_parsed :: "json \<Rightarrow> js_error + jsobject" where
  "merge_parsed parsed =
     (case get_prop parsed ''voiceSettings'' of Inl e \<Rightarrow> Inl e | Inr vs \<Rightarrow>
      case get_prop parsed ''autoSubmit'' of Inl e \<Rightarrow> Inl e | Inr au \<Rightarrow>
      case get_prop parsed ''wisprLoop'' of Inl e \<Rightarrow> Inl e | Inr wl \<Rightarrow>
      case get_prop parsed ''autoListen'' of Inl e \<Rightarrow> Inl e | Inr al \<Rightarrow>
        Inr ((DEFAULT_CONFIG ++ own_props parsed)
               (''voiceSettings'' := Some (JObj (DEFAULT_VOICE_SETTINGS ++ own_props (or_empty vs))),
                ''autoSubmit'' := Some (JObj (DEFAULT_AUTO_SUBMIT ++ own_props (or_empty au))),
                ''wisprLoop'' := Some (JObj (DEFAULT_WISPR_LOOP ++ own_props (or_empty wl))),
                ''autoListen'' :=
                   (case al of None \<Rightarrow> DEFAULT_CONFIG ''autoListen'' | Some v \<Rightarrow> Some v))))"

text \<open>
  The \<open>try\<close> block of \<open>loadConfig\<close>: it throws, or falls through (\<open>None\<close>) when the file
  does not exist, or returns the merged object.
\<close>

definition loadConfig_try :: "config_file \<Rightarrow> js_error + jsobject option" where
  "loadConfig_try f =
     (case f of
        Absent \<Rightarrow> Inr None
      | ReadThrows \<Rightarrow> Inl IOError
      | ParseThrows \<Rightarrow> Inl SyntaxError
      | Holds parsed \<Rightarrow>
          (case merge_parsed parsed of Inl e \<Rightarrow> Inl e | Inr c \<Rightarrow> Inr (Some c)))"

text \<open>The object of the last \<open>return\<close> of \<open>loadConfig\<close>.\<close>

definition fallback_config :: jsobject where
  "fallback_config =
     DEFAULT_CONFIG
       (''voiceSettings'' := Some (JObj DEFAULT_VOICE_SETTINGS),
        ''autoSubmit'' := Some (JObj DEFAULT_AUTO_SUBMIT),
        ''wisprLoop'' := Some (JObj DEFAULT_WISPR_LOOP),
        ''autoListen'' := DEFAULT_CONFIG ''autoListen'')"

definition loadConfig :: "config_file \<Rightarrow> jsobject" where
  "loadConfig f =
     (case loadConfig_try f of
        Inl e \<Rightarrow> fallback_config
      | Inr None \<Rightarrow> fallback_config
      | Inr (Some c) \<Rightarrow> c)"

text \<open>
  \<open>saveConfig\<close>: the new state of config.json, and the object returned or the error
  thrown. The file holds what \<open>JSON.stringify\<close> printed of the updated object; the object
  returned is the updated object itself.
\<close>

definition saveConfig :: "jsobject \<Rightarrow> fs_write \<Rightarrow> config_file \<Rightarrow> config_file \<times> (js_error + jsobject)" where
  "saveConfig config w f =
     (let current = loadConfig f;
          updated = current ++ config
      in case w of
           WriteThrows errorMessage \<Rightarrow> (f, Inl IOError)
         | WriteOk \<Rightarrow> (Holds (stringify_parse (JObj updated)), Inr updated))"

text \<open>\<open>process.env.X || v\<close>, for an environment variable that is unset or a string.\<close>

definition env_or :: "string option \<Rightarrow> json option \<Rightarrow> json option" where
  "env_or x v = (case x of None \<Rightarrow> v | Some e \<Rightarrow> if e = [] then v else Some (JStr e))"

definition getEffectiveConfig :: "string option \<Rightarrow> string option \<Rightarrow> config_file \<Rightarrow> jsobject" where
  "getEffectiveConfig ELEVENLABS_API_KEY ELEVENLABS_VOICE_ID f =
     (let fileConfig = loadConfig f
      in Map.empty
           (''apiKey'' := env_or ELEVENLABS_API_KEY (fileConfig ''apiKey''),
            ''voiceId'' := env_or ELEVENLABS_VOICE_ID (fileConfig ''voiceId''),
            ''model'' := (if truthy_opt (fileConfig ''model'') then fileConfig ''model''
                          else DEFAULT_CONFIG ''model''),
            ''voiceSettings'' := fileConfig ''voiceSettings'',
            ''autoSubmit'' := fileConfig ''autoSubmit'',
            ''wisprLoop'' := fileConfig ''wisprLoop'',
            ''autoListen'' := fileConfig ''autoListen''))"

text \<open>The value that \<open>c.grp.k\<close> reads in a configuration object.\<close>

definition nested :: "jsobject \<Rightarrow> string \<Rightarrow> string \<Rightarrow> json option" where
  "nested c grp k = (case c grp of None \<Rightarrow> None | Some v \<Rightarrow> own_props v k)"

section \<open>The settings server (settings-server.ts)\<close>

definition maskKey :: "string \<Rightarrow> string" where
  "maskKey key =
     (if length key \<le> 8 then ''****''
      else take 4 key @ ''****'' @ drop (length key - 4) key)"

text \<open>
  \<open>maskKey\<close> is declared on strings, but JavaScript runs it on whatever value the
  configuration holds for \<open>apiKey\<close>. Two conversions of the language are then needed
  that are no code of this repository; they are parameters: \<open>js_String v\<close> is the string
  \<open>String(v)\<close>, to which \<open>+\<close> converts an array, or the error that the conversion
  throws (an array can hold an object whose \<open>toString\<close> is no function); and \<open>js_le8 s\<close>
  says whether the number that the string \<open>s\<close> converts to is at most 8.
\<close>

record js_builtins =
  js_String :: "json \<Rightarrow> js_error + string"
  js_le8 :: "string \<Rightarrow> bool"

text \<open>
  \<open>x <= 8\<close> for the property \<open>length\<close> of an object: \<open>undefined\<close> converts to NaN,
  \<open>null\<close> and \<open>false\<close> to 0, \<open>true\<close> to 1, a string and an array (through its string)
  to the number they spell; an object converts to NaN through \<open>Object.prototype.toString\<close>,
  and the conversion throws when the object has a \<open>toString\<close> of its own, which is no
  function.
\<close>

definition length_le8 :: "js_builtins \<Rightarrow> json option \<Rightarrow> js_error + bool" where
  "length_le8 rt x =
     (case x of
        None \<Rightarrow> Inr False
      | Some JNull \<Rightarrow> Inr True
      | Some (JBool b) \<Rightarrow> Inr True
      | Some (JNum n) \<Rightarrow> Inr (n \<le> 8)
      | Some (JInf b) \<Rightarrow> Inr (\<not> b)
      | Some (JStr s) \<Rightarrow> Inr (js_le8 rt s)
      | Some (JArr xs) \<Rightarrow>
          (case js_String rt (JArr xs) of Inl e \<Rightarrow> Inl e | Inr s \<Rightarrow> Inr (js_le8 rt s))
      | Some (JObj m) \<Rightarrow> (if m ''toString'' = None then Inr False else Inl TypeError))"

text \<open>
  \<open>maskKey(key)\<close> for any value. A string and an array have \<open>length\<close> and \<open>slice\<close>,
  and \<open>+\<close> converts the slices of an array to strings. An object has the \<open>length\<close> it
  holds and no \<open>slice\<close> that is a function. A number and a boolean have neither, so that
  the comparison fails and \<open>key.slice\<close> is not a function; reading \<open>null.length\<close> throws.
\<close>

definition maskKey_value :: "js_builtins \<Rightarrow> json \<Rightarrow> js_error + string" where
  "maskKey_value rt v =
     (case v of
        JStr key \<Rightarrow> Inr (maskKey key)
      | JArr xs \<Rightarrow>
          (if length xs \<le> 8 then Inr ''****''
           else (case js_String rt (JArr (take 4 xs)) of
                   Inl e \<Rightarrow> Inl e
                 | Inr a \<Rightarrow>
                     (case js_String rt (JArr (drop (length xs - 4) xs)) of
                        Inl e \<Rightarrow> Inl e
                      | Inr b \<Rightarrow> Inr (a @ ''****'' @ b))))
      | JObj m \<Rightarrow>
          (case length_le8 rt (m ''length'') of
             Inl e \<Rightarrow> Inl e
           | Inr le \<Rightarrow> (if le then Inr ''****'' else Inl TypeError))
      | _ \<Rightarrow> Inl TypeError)"

text \<open>The field \<open>config.apiKey ? maskKey(config.apiKey) : ""\<close>.\<close>

definition masked_apiKey :: "js_builtins \<Rightarrow> json option \<Rightarrow> js_error + json" where
  "masked_apiKey rt x =
     (if \<not> truthy_opt x then Inr (JStr [])
      else (case x of
              None \<Rightarrow> Inr (JStr [])
            | Some v \<Rightarrow> (case maskKey_value rt v of Inl e \<Rightarrow> Inl e | Inr s \<Rightarrow> Inr (JStr s))))"

text \<open>
  The object that both handlers of /api/config build for a configuration and pass to
  \<open>res.json\<close>.
\<close>

definition config_view :: "js_builtins \<Rightarrow> jsobject \<Rightarrow> js_error + jsobject" where
  "config_view rt c =
     (case masked_apiKey rt (c ''apiKey'') of
        Inl e \<Rightarrow> Inl e
      | Inr k \<Rightarrow>
          Inr (Map.empty
            (''apiKey'' := Some k,
             ''apiKeySet'' := Some (JBool (truthy_opt (c ''apiKey''))),
             ''voiceId'' := c ''voiceId'',
             ''model'' := c ''model'',
             ''voiceSettings'' := c ''voiceSettings'',
             ''autoSubmit'' := c ''autoSubmit'',
             ''wisprLoop'' := c ''wisprLoop'',
             ''autoListen'' := c ''autoListen'')))"

definition get_api_config :: "js_builtins \<Rightarrow> config_file \<Rightarrow> js_error + jsobject" where
  "get_api_config rt f = config_view rt (loadConfig f)"

text \<open>
  The \<open>updates\<close> object that the POST handler builds from the request body, the JSON
  object that \<open>express.json()\<close> has parsed. A field that is absent from the body is
  \<open>undefined\<close>.
\<close>

definition post_updates :: "jsobject \<Rightarrow> jsobject" where
  "post_updates body =
     Map.empty
       (''apiKey'' := (if body ''apiKey'' \<noteq> None \<and> body ''apiKey'' \<noteq> Some (JStr [])
                       then body ''apiKey'' else None),
        ''voiceId'' := body ''voiceId'',
        ''model'' := body ''model'',
        ''voiceSettings'' := body ''voiceSettings'',
        ''autoSubmit'' := body ''autoSubmit'',
        ''wisprLoop'' := body ''wisprLoop'',
        ''autoListen'' := body ''autoListen'')"

text \<open>
  The POST handler: the new state of config.json, and the response or the error thrown
  (which the framework answers with status 500).
\<close>

definition post_api_config :: "js_builtins \<Rightarrow> jsobject \<Rightarrow> fs_write \<Rightarrow> config_file \<Rightarrow> config_file \<times> (js_error + jsobject)" where
  "post_api_config rt body w f =
     (case saveConfig (post_updates body) w f of
        (f', Inl e) \<Rightarrow> (f', Inl e)
      | (f', Inr saved) \<Rightarrow>
          (case config_view rt saved of
             Inl e \<Rightarrow> (f', Inl e)
           | Inr v \<Rightarrow> (f', Inr [''success'' \<mapsto> JBool True, ''config'' \<mapsto> JObj v])))"

text \<open>What the file gives for the nested object \<open>g\<close>: the operand \<open>parsed.g || {}\<close>.\<close>

definition file_group :: "config_file \<Rightarrow> string \<Rightarrow> jsobject" where
  "file_group f g =
     (case f of
        Holds p \<Rightarrow> (case p of JNull \<Rightarrow> Map.empty | _ \<Rightarrow> own_props (or_empty (own_props p g)))
      | _ \<Rightarrow> Map.empty)"

text \<open>The fields of \<open>Config\<close> and of its three nested objects.\<close>

definition config_fields :: "string list" where
  "config_fields = [''apiKey'', ''voiceId'', ''model'', ''voiceSettings'', ''autoSubmit'',
                    ''wisprLoop'', ''autoListen'']"

definition voice_fields :: "string list" where
  "voice_fields = [''speed'', ''stability'', ''similarityBoost'', ''style'']"

definition auto_submit_fields :: "string list" where
  "auto_submit_fields = [''enabled'', ''silenceDelay'', ''minTextLength'', ''targetApp'']"

definition wispr_loop_fields :: "string list" where
  "wispr_loop_fields = [''enabled'', ''ttsDelay'', ''silenceThreshold'', ''silenceDuration'',
                        ''wisprHotkey'', ''manualTriggerHotkey'']"

text \<open>
  The field \<open>k\<close> of the object that the GET handler sends, and the field \<open>config.k\<close> of
  the object that the POST handler sends (\<open>None\<close> when the handler throws).
\<close>

definition response_field :: "string \<Rightarrow> js_error + jsobject \<Rightarrow> json option" where
  "response_field k r = (case r of Inl e \<Rightarrow> None | Inr v \<Rightarrow> v k)"

definition response_config_field :: "string \<Rightarrow> js_error + jsobject \<Rightarrow> json option" where
  "response_config_field k r = (case r of Inl e \<Rightarrow> None | Inr v \<Rightarrow> nested v ''config'' k)"

text \<open>
  The field \<open>k\<close> as config.json itself holds it, and the fields that the POST handler
  copies from the request body whatever their value.
\<close>

definition stored :: "config_file \<Rightarrow> string \<Rightarrow> json option" where
  "stored f k = (case f of Holds p \<Rightarrow> own_props p k | _ \<Rightarrow> None)"


text \<open>Files and requests to evaluate the theorems on.\<close>

definition partial_object :: jsobject where
  "partial_object =
     [''voiceId'' \<mapsto> JStr ''abc'', ''apiKey'' \<mapsto> JStr ''sk_0123456789abcdef'',
      ''voiceSettings'' \<mapsto> JObj [''speed'' \<mapsto> JNum (6 / 5)]]"

definition partial_file :: config_file where
  "partial_file = Holds (JObj partial_object)"

definition masked_looking_file :: config_file where
  "masked_looking_file = Holds (JObj [''apiKey'' \<mapsto> JStr ''abcd****wxyz''])"

definition masked_request :: jsobject where
  "masked_request = [''apiKey'' \<mapsto> JStr ''abcd****wxyz'']"

text \<open>
  Conversions to evaluate the theorems on. The theorems hold for all conversions; for a
  key that is a string neither is called.
\<close>

definition some_builtins :: js_builtins where
  "some_builtins = \<lparr>js_String = (\<lambda>v. Inr []), js_le8 = (\<lambda>s. False)\<rparr>"




definition voice_request :: jsobject where
  "voice_request = [''apiKey'' \<mapsto> JStr [], ''voiceId'' \<mapsto> JStr ''xyz'',
                    ''autoListen'' \<mapsto> JBool False]"

section \<open>The speech queue of the MCP server (index.ts)\<close>

text \<open>
  The server keeps two module variables, \<open>ttsQueue\<close> and \<open>isProcessingQueue\<close>.
  \<open>processTTSQueue\<close> is an async function: it runs without interruption up to an
  \<open>await\<close>, where it is suspended until the awaited promise settles; in between, other
  tool calls may run. The model is a state machine whose events are the tool call
  \<open>speak\<close> and the settling of the two awaited promises (\<open>textToSpeech.convert\<close> and
  \<open>play\<close>); each event runs the code up to its next \<open>await\<close>.

  A suspended activation of \<open>processTTSQueue\<close> is a \<open>frame\<close>. The state holds the list
  of all suspended activations, so that "only one drain loop runs" is a theorem about the
  code and not a property of the model's types.
\<close>

type_synonym audio = "nat list"

text \<open>
  A queue item is the text and the promise's \<open>resolve\<close>/\<open>reject\<close> pair; the pair is
  identified by the number of the promise (the n-th promise created by \<open>queueTTS\<close>).
\<close>

record TTSQueueItem =
  item_text :: string
  handle :: nat

text \<open>The tool result: the text of its single content entry, and the \<open>isError\<close> flag.\<close>

record tool_result =
  content_text :: string
  isError :: bool

datatype settlement = Resolve tool_result | Reject tool_result

text \<open>
  The signal files. \<open>timestamp\<close> is the reading of the wall clock (\<open>new Date()\<close>) in
  milliseconds; \<open>toISOString\<close> prints it.
\<close>

record signal =
  timestamp :: nat

record completionSignal = signal +
  completed :: bool

record listenSignal = signal +
  triggered :: bool

datatype frame = AwaitConvert TTSQueueItem | AwaitPlay TTSQueueItem

fun frame_item :: "frame \<Rightarrow> TTSQueueItem" where
  "frame_item (AwaitConvert it) = it"
| "frame_item (AwaitPlay it) = it"

fun is_playing :: "frame \<Rightarrow> bool" where
  "is_playing (AwaitConvert it) = False"
| "is_playing (AwaitPlay it) = True"

record coordinator =
  ttsQueue :: "TTSQueueItem list"
  isProcessingQueue :: bool
  loops :: "frame list"
  promises :: nat
  settled :: "(nat \<times> settlement) list"
  convertCalls :: "TTSQueueItem list"
  playCalls :: "(nat \<times> audio) list"
  completeFile :: "completionSignal fsfile"

text \<open>
  \<open>loops\<close>: the suspended activations of \<open>processTTSQueue\<close>. \<open>promises\<close>: how many
  promises \<open>queueTTS\<close> has created. \<open>settled\<close>: the calls of \<open>item.resolve\<close> and
  \<open>item.reject\<close>, in order. \<open>convertCalls\<close> and \<open>playCalls\<close>: the calls of the
  synthesis gateway and of \<open>play\<close>, in order. \<open>completeFile\<close>: tts-complete.json.
\<close>

definition init :: coordinator where
  "init = \<lparr>ttsQueue = [], isProcessingQueue = False, loops = [], promises = 0,
            settled = [], convertCalls = [], playCalls = [], completeFile = no_file\<rparr>"

text \<open>
  The head of the \<open>while\<close> loop, up to the \<open>await\<close> of \<open>convert\<close>: with an empty queue
  the loop is left and the flag reset; otherwise the head of the queue is shifted out and
  \<open>convert\<close> is called for it. The second component is the frame in which the activation
  is suspended, \<open>None\<close> when it has returned.
\<close>

definition while_head :: "coordinator \<Rightarrow> coordinator \<times> frame option" where
  "while_head s =
     (case ttsQueue s of
        [] \<Rightarrow> (s\<lparr>isProcessingQueue := False\<rparr>, None)
      | it # rest \<Rightarrow>
          (s\<lparr>ttsQueue := rest, convertCalls := convertCalls s @ [it]\<rparr>,
           Some (AwaitConvert it)))"

text \<open>A call of \<open>processTTSQueue\<close>: the guard, the flag, and the loop up to its first \<open>await\<close>.\<close>

definition processTTSQueue :: "coordinator \<Rightarrow> coordinator" where
  "processTTSQueue s =
     (if isProcessingQueue s \<or> ttsQueue s = [] then s
      else (case while_head (s\<lparr>isProcessingQueue := True\<rparr>) of
              (s', None) \<Rightarrow> s'
            | (s', Some fr) \<Rightarrow> s'\<lparr>loops := loops s' @ [fr]\<rparr>))"

definition queueTTS :: "string \<Rightarrow> coordinator \<Rightarrow> coordinator" where
  "queueTTS t s =
     processTTSQueue
       (s\<lparr>ttsQueue := ttsQueue s @ [\<lparr>item_text = t, handle = promises s\<rparr>],
          promises := Suc (promises s)\<rparr>)"

text \<open>The activation in slot \<open>k\<close> goes round the loop once more.\<close>

definition resume :: "nat \<Rightarrow> coordinator \<Rightarrow> coordinator" where
  "resume k s =
     (case while_head s of
        (s', None) \<Rightarrow> s'\<lparr>loops := take k (loops s') @ drop (Suc k) (loops s')\<rparr>
      | (s', Some fr) \<Rightarrow> s'\<lparr>loops := (loops s')[k := fr]\<rparr>)"

definition spoken :: "string \<Rightarrow> tool_result" where
  "spoken t = \<lparr>content_text = ''Spoken: '' @ [CHR 0x22] @ t @ [CHR 0x22], isError = False\<rparr>"

definition failed_to_speak :: "string \<Rightarrow> tool_result" where
  "failed_to_speak errorMessage =
     \<lparr>content_text = ''Failed to speak: '' @ errorMessage, isError = True\<rparr>"

text \<open>The \<open>catch\<close> block of the loop body.\<close>

definition catch_block :: "TTSQueueItem \<Rightarrow> string \<Rightarrow> coordinator \<Rightarrow> coordinator" where
  "catch_block it errorMessage s =
     s\<lparr>settled := settled s @ [(handle it, Reject (failed_to_speak errorMessage))]\<rparr>"

text \<open>
  The \<open>try\<close> block after \<open>play\<close> has completed: the signal is written (which may
  throw, into the \<open>catch\<close> block), then the promise is resolved.
\<close>

definition after_play :: "TTSQueueItem \<Rightarrow> nat \<Rightarrow> fs_write \<Rightarrow> coordinator \<Rightarrow> coordinator" where
  "after_play it now w s =
     (case w of
        WriteThrows errorMessage \<Rightarrow> catch_block it errorMessage s
      | WriteOk \<Rightarrow>
          s\<lparr>completeFile :=
               writeFileSync \<lparr>timestamp = now, completed = True\<rparr> (completeFile s),
             settled := settled s @ [(handle it, Resolve (spoken (item_text it)))]\<rparr>)"

text \<open>
  The events. \<open>Speak t\<close>: the tool call \<open>speak\<close> with text \<open>t\<close>. \<open>ConvertDone k r\<close>: the
  promise of \<open>convert\<close> awaited by the activation in slot \<open>k\<close> settles, with the audio or
  with the message of the error. \<open>PlayDone k r now w\<close>: the promise of \<open>play\<close> awaited by
  slot \<open>k\<close> settles, with the message of the error if it failed; \<open>now\<close> is what the clock
  reads then and \<open>w\<close> what \<open>writeFileSync\<close> does. An event for a slot that does not
  await it cannot happen; the model leaves the state as it is.
\<close>

datatype event =
    Speak string
  | ConvertDone nat "string + audio"
  | PlayDone nat "string option" nat fs_write

fun step :: "coordinator \<Rightarrow> event \<Rightarrow> coordinator" where
  "step s (Speak t) = queueTTS t s"
| "step s (ConvertDone k r) =
     (if k < length (loops s) then
        (case loops s ! k of
           AwaitConvert it \<Rightarrow>
             (case r of
                Inl errorMessage \<Rightarrow> resume k (catch_block it errorMessage s)
              | Inr a \<Rightarrow>
                  s\<lparr>playCalls := playCalls s @ [(handle it, a)],
                    loops := (loops s)[k := AwaitPlay it]\<rparr>)
         | AwaitPlay it \<Rightarrow> s)
      else s)"
| "step s (PlayDone k r now w) =
     (if k < length (loops s) then
        (case loops s ! k of
           AwaitConvert it \<Rightarrow> s
         | AwaitPlay it \<Rightarrow>
             (case r of
                Some errorMessage \<Rightarrow> resume k (catch_block it errorMessage s)
              | None \<Rightarrow> resume k (after_play it now w s)))
      else s)"

definition run :: "event list \<Rightarrow> coordinator" where
  "run evs = foldl step init evs"

text \<open>The items in the order of the \<open>speak\<close> calls, numbered from \<open>n\<close>.\<close>

fun submitted_from :: "nat \<Rightarrow> event list \<Rightarrow> TTSQueueItem list" where
  "submitted_from n [] = []"
| "submitted_from n (Speak t # evs) =
     \<lparr>item_text = t, handle = n\<rparr> # submitted_from (Suc n) evs"
| "submitted_from n (e # evs) = submitted_from n evs"

definition submitted :: "event list \<Rightarrow> TTSQueueItem list" where
  "submitted evs = submitted_from 0 evs"

text \<open>
  The handles of the items that are being synthesised or played, and of those being
  played.
\<close>

definition in_flight :: "coordinator \<Rightarrow> nat list" where
  "in_flight s = map (handle \<circ> frame_item) (loops s)"

definition now_playing :: "coordinator \<Rightarrow> nat list" where
  "now_playing s = map (handle \<circ> frame_item) (filter is_playing (loops s))"



text \<open>
  The event by which the attempt of the item in slot \<open>k\<close> fails: the rejection of the
  promise that the slot awaits.
\<close>

fun failure_event :: "nat \<Rightarrow> frame \<Rightarrow> string \<Rightarrow> nat \<Rightarrow> fs_write \<Rightarrow> event" where
  "failure_event k (AwaitConvert it) errorMessage now w = ConvertDone k (Inl errorMessage)"
| "failure_event k (AwaitPlay it) errorMessage now w = PlayDone k (Some errorMessage) now w"

text \<open>
  An environment that answers: for every item, how its \<open>convert\<close> promise settles, and
  how its \<open>play\<close> promise settles (with the clock reading and the behaviour of the file
  system at that time). \<open>respond\<close> is the event that settles what the first suspended
  activation awaits; \<open>drain n\<close> delivers up to \<open>n\<close> such events, stopping when no activation
  is left.
\<close>

record environment =
  convert_result :: "TTSQueueItem \<Rightarrow> string + audio"
  play_result :: "TTSQueueItem \<Rightarrow> string option"
  clock :: "TTSQueueItem \<Rightarrow> nat"
  write_result :: "TTSQueueItem \<Rightarrow> fs_write"

fun respond :: "environment \<Rightarrow> frame \<Rightarrow> event" where
  "respond env (AwaitConvert it) = ConvertDone 0 (convert_result env it)"
| "respond env (AwaitPlay it) = PlayDone 0 (play_result env it) (clock env it) (write_result env it)"

fun drain :: "nat \<Rightarrow> environment \<Rightarrow> coordinator \<Rightarrow> coordinator" where
  "drain 0 env s = s"
| "drain (Suc n) env s =
     (case loops s of
        [] \<Rightarrow> s
      | f # fs \<Rightarrow> drain n env (step s (respond env f)))"

text \<open>
  How many promises at most are still to settle before the loop ends: two for every
  queued item, and two or one for the item in flight.
\<close>

fun frame_pending :: "frame \<Rightarrow> nat" where
  "frame_pending (AwaitConvert it) = 2"
| "frame_pending (AwaitPlay it) = 1"

definition pending :: "coordinator \<Rightarrow> nat" where
  "pending s = 2 * length (ttsQueue s) + sum_list (map frame_pending (loops s))"

text \<open>The clock readings that the events of a run carry, in order.\<close>

fun clock_readings :: "event list \<Rightarrow> nat list" where
  "clock_readings [] = []"
| "clock_readings (PlayDone k r now w # evs) = now # clock_readings evs"
| "clock_readings (e # evs) = clock_readings evs"

text \<open>
  The handler of the tool \<open>listen\<close>: the new state of listen-signal.json and the result.
  \<open>config\<close> is the effective configuration, \<open>now\<close> the clock reading, \<open>w\<close> what
  \<open>writeFileSync\<close> does.
\<close>

definition listen_disabled :: tool_result where
  "listen_disabled = \<lparr>content_text = ''Auto-listen is disabled'', isError = False\<rparr>"

definition listening :: tool_result where
  "listening = \<lparr>content_text = ''Listening for user input...'', isError = False\<rparr>"

definition failed_to_listen :: "string \<Rightarrow> tool_result" where
  "failed_to_listen errorMessage =
     \<lparr>content_text = ''Failed to start listening: '' @ errorMessage, isError = True\<rparr>"

definition listen :: "jsobject \<Rightarrow> nat \<Rightarrow> fs_write \<Rightarrow> listenSignal fsfile \<Rightarrow> listenSignal fsfile \<times> tool_result" where
  "listen config now w f =
     (if \<not> truthy_opt (config ''autoListen'') then (f, listen_disabled)
      else (case w of
              WriteThrows errorMessage \<Rightarrow> (f, failed_to_listen errorMessage)
            | WriteOk \<Rightarrow>
                (writeFileSync \<lparr>timestamp = now, triggered = True\<rparr> f, listening)))"

text \<open>
  The invariant of the reachable states, relative to the events so far: at most one
  activation; the flag is set exactly while there is one; an idle coordinator has an empty
  queue; the gateway calls followed by the queue are the submitted items; every gateway
  call but that of the item in flight has been settled; and every \<open>play\<close> call but that
  of the item being played belongs to a settled item.
\<close>

definition queue_inv :: "event list \<Rightarrow> coordinator \<Rightarrow> bool" where
  "queue_inv evs s \<longleftrightarrow>
     length (loops s) \<le> 1 \<and>
     (isProcessingQueue s \<longleftrightarrow> loops s \<noteq> []) \<and>
     (loops s = [] \<longrightarrow> ttsQueue s = []) \<and>
     convertCalls s @ ttsQueue s = submitted evs \<and>
     promises s = length (submitted evs) \<and>
     map handle (convertCalls s) = map fst (settled s) @ map (handle \<circ> frame_item) (loops s) \<and>
     subseq (map fst (playCalls s))
       (map fst (settled s) @ map (handle \<circ> frame_item) (filter is_playing (loops s)))"

text \<open>A run used to evaluate the theorems on: three requests, the second of which fails.\<close>

definition demo :: "event list" where
  "demo = [Speak ''a'', Speak ''b'', ConvertDone 0 (Inr [1]), Speak ''c'',
           PlayDone 0 None 1000 WriteOk, ConvertDone 0 (Inl ''quota''),
           ConvertDone 0 (Inr [2])]"

definition demo5 :: "event list" where
  "demo5 = [Speak ''a'', Speak ''b'', ConvertDone 0 (Inr [1]), Speak ''c'',
           PlayDone 0 None 1000 WriteOk]"

definition demo_done :: "event list" where
  "demo_done = demo5 @ [ConvertDone 0 (Inl ''quota''), ConvertDone 0 (Inr [2]),
                        PlayDone 0 None 2000 WriteOk]"

text \<open>An environment in which every synthesis, playback and write succeeds.\<close>

definition healthy :: environment where
  "healthy = \<lparr>convert_result = (\<lambda>it. Inr []), play_result = (\<lambda>it. None),
              clock = (\<lambda>it. 2000), write_result = (\<lambda>it. WriteOk)\<rparr>"

text \<open>Whether the event has the loop write tts-complete.json, and the clock reading it carries.\<close>

definition writes_signal :: "coordinator \<Rightarrow> event \<Rightarrow> bool" where
  "writes_signal s e =
     (case e of
        PlayDone k r now w \<Rightarrow>
          k < length (loops s) \<and> is_playing (loops s ! k) \<and> r = None \<and> w = WriteOk
      | _ \<Rightarrow> False)"

fun event_clock :: "event \<Rightarrow> nat" where
  "event_clock (PlayDone k r now w) = now"
| "event_clock e = 0"

text \<open>More runs and configurations to evaluate the theorems on.\<close>

definition empty_request :: "event list" where
  "empty_request = [Speak []]"

definition blank_request :: "event list" where
  "blank_request = [Speak ''  '']"



definition playing_hi :: "event list" where
  "playing_hi = [Speak ''hi'', Speak ''there'', ConvertDone 0 (Inr [1])]"

definition clock_steps_back :: "event list" where
  "clock_steps_back = [Speak ''a'', Speak ''b'', ConvertDone 0 (Inr [1]),
     PlayDone 0 None 1000 WriteOk, ConvertDone 0 (Inr [2]), PlayDone 0 None 400 WriteOk]"

definition defaults_on :: jsobject where
  "defaults_on = getEffectiveConfig None None Absent"

definition defaults_off :: jsobject where
  "defaults_off = getEffectiveConfig None None (Holds (JObj [''autoListen'' \<mapsto> JBool False]))"

section \<open>Properties of the speech queue\<close>

lemma run_Nil: "run [] = init"
  by (simp add: run_def)

lemma run_snoc: "run (evs @ [e]) = step (run evs) e"
  by (simp add: run_def)

lemma submitted_from_snoc_Speak:
  "submitted_from n (evs @ [Speak t]) =
     submitted_from n evs @ [\<lparr>item_text = t, handle = n + length (submitted_from n evs)\<rparr>]"
  by (induction n evs rule: submitted_from.induct) simp_all

lemma submitted_from_snoc_ConvertDone:
  "submitted_from n (evs @ [ConvertDone k r]) = submitted_from n evs"
  by (induction n evs rule: submitted_from.induct) simp_all

lemma submitted_from_snoc_PlayDone:
  "submitted_from n (evs @ [PlayDone k r now w]) = submitted_from n evs"
  by (induction n evs rule: submitted_from.induct) simp_all

lemma submitted_snoc_Speak:
  "submitted (evs @ [Speak t]) =
     submitted evs @ [\<lparr>item_text = t, handle = length (submitted evs)\<rparr>]"
  by (simp add: submitted_def submitted_from_snoc_Speak)

lemma submitted_snoc_ConvertDone: "submitted (evs @ [ConvertDone k r]) = submitted evs"
  by (simp add: submitted_def submitted_from_snoc_ConvertDone submitted_from_snoc_PlayDone)

lemma submitted_snoc_PlayDone: "submitted (evs @ [PlayDone k r now w]) = submitted evs"
  by (simp add: submitted_def submitted_from_snoc_ConvertDone submitted_from_snoc_PlayDone)

lemma inv_init: "queue_inv [] init"
  by (simp add: queue_inv_def init_def submitted_def)


lemma queueTTS_busy:
  "isProcessingQueue s \<Longrightarrow>
   queueTTS t s = s\<lparr>ttsQueue := ttsQueue s @ [\<lparr>item_text = t, handle = promises s\<rparr>],
                    promises := Suc (promises s)\<rparr>"
  by (simp add: queueTTS_def processTTSQueue_def)

lemma queueTTS_idle:
  "\<not> isProcessingQueue s \<Longrightarrow> ttsQueue s = [] \<Longrightarrow>
   queueTTS t s = s\<lparr>ttsQueue := [], promises := Suc (promises s), isProcessingQueue := True,
                    convertCalls := convertCalls s @ [\<lparr>item_text = t, handle = promises s\<rparr>],
                    loops := loops s @ [AwaitConvert \<lparr>item_text = t, handle = promises s\<rparr>]\<rparr>"
  by (simp add: queueTTS_def processTTSQueue_def while_head_def)

lemma inv_Speak: "queue_inv evs s \<Longrightarrow> queue_inv (evs @ [Speak t]) (step s (Speak t))"
proof (cases "isProcessingQueue s")
  case True
  assume "queue_inv evs s"
  with True show ?thesis
    by (simp add: queueTTS_busy queue_inv_def submitted_snoc_Speak)
next
  case False
  assume i: "queue_inv evs s"
  with False have "ttsQueue s = []" "loops s = []" by (simp_all add: queue_inv_def)
  with False i show ?thesis
    by (auto simp: queueTTS_idle queue_inv_def submitted_snoc_Speak)
qed

lemma resume_empty:
  "ttsQueue s = [] \<Longrightarrow>
   resume k s = s\<lparr>isProcessingQueue := False, loops := take k (loops s) @ drop (Suc k) (loops s)\<rparr>"
  by (simp add: resume_def while_head_def)

lemma resume_next:
  "ttsQueue s = it # rest \<Longrightarrow>
   resume k s = s\<lparr>ttsQueue := rest, convertCalls := convertCalls s @ [it],
                     loops := (loops s)[k := AwaitConvert it]\<rparr>"
  by (simp add: resume_def while_head_def)

lemma inv_loops_cases:
  assumes "queue_inv evs s"
  obtains (idle) "loops s = []" "\<not> isProcessingQueue s" "ttsQueue s = []"
  | (busy) f where "loops s = [f]" "isProcessingQueue s"
  using assms by (cases "loops s") (auto simp: queue_inv_def)

lemma inv_ConvertDone:
  assumes i: "queue_inv evs s"
  shows "queue_inv (evs @ [ConvertDone k r]) (step s (ConvertDone k r))"
  using i
proof (cases rule: inv_loops_cases)
  case idle
  with i show ?thesis by (auto simp: queue_inv_def submitted_snoc_ConvertDone)
next
  case (busy f)
  show ?thesis
  proof (cases k)
    case (Suc k')
    with busy i show ?thesis by (auto simp: queue_inv_def submitted_snoc_ConvertDone)
  next
    case 0
    show ?thesis
    proof (cases f)
      case (AwaitPlay it)
      with 0 busy i show ?thesis by (auto simp: queue_inv_def submitted_snoc_ConvertDone)
    next
      case (AwaitConvert it)
      show ?thesis
      proof (cases r)
        case (Inr a)
        with AwaitConvert 0 busy i show ?thesis
          by (auto simp: queue_inv_def submitted_snoc_ConvertDone)
      next
        case (Inl m)
        show ?thesis
        proof (cases "ttsQueue s")
          case Nil
          with Inl AwaitConvert 0 busy i show ?thesis
            by (auto simp: queue_inv_def submitted_snoc_ConvertDone resume_empty catch_block_def)
        next
          case (Cons nxt rest)
          with Inl AwaitConvert 0 busy i show ?thesis
            by (auto simp: queue_inv_def submitted_snoc_ConvertDone resume_next catch_block_def)
        qed
      qed
    qed
  qed
qed


lemma inv_PlayDone:
  assumes i: "queue_inv evs s"
  shows "queue_inv (evs @ [PlayDone k r now w]) (step s (PlayDone k r now w))"
  using i
proof (cases rule: inv_loops_cases)
  case idle
  with i show ?thesis by (auto simp: queue_inv_def submitted_snoc_PlayDone)
next
  case (busy f)
  show ?thesis
  proof (cases k)
    case (Suc k')
    with busy i show ?thesis by (auto simp: queue_inv_def submitted_snoc_PlayDone)
  next
    case 0
    show ?thesis
    proof (cases f)
      case (AwaitConvert it)
      with 0 busy i show ?thesis by (auto simp: queue_inv_def submitted_snoc_PlayDone)
    next
      case (AwaitPlay it)
      show ?thesis
      proof (cases "ttsQueue s")
        case Nil
        with AwaitPlay 0 busy i show ?thesis
          by (cases r; cases w)
             (auto simp: queue_inv_def submitted_snoc_PlayDone resume_empty catch_block_def
                         after_play_def)
      next
        case (Cons nxt rest)
        with AwaitPlay 0 busy i show ?thesis
          by (cases r; cases w)
             (auto simp: queue_inv_def submitted_snoc_PlayDone resume_next catch_block_def
                         after_play_def)
      qed
    qed
  qed
qed

lemma inv_step: "queue_inv evs s \<Longrightarrow> queue_inv (evs @ [e]) (step s e)"
  by (cases e) (simp_all only: inv_Speak inv_ConvertDone inv_PlayDone)

lemma inv_run: "queue_inv evs (run evs)"
proof (induction evs rule: rev_induct)
  case Nil
  show ?case by (simp add: run_Nil inv_init)
next
  case (snoc e evs)
  then show ?case by (simp only: run_snoc inv_step)
qed


lemma handle_submitted_from: "map handle (submitted_from n evs) = [n..<n + length (submitted_from n evs)]"
  by (induction n evs rule: submitted_from.induct) (simp_all add: upt_rec)

lemma handle_submitted: "map handle (submitted evs) = [0..<length (submitted evs)]"
  using handle_submitted_from [of 0 evs] by (simp add: submitted_def)

lemmas exec_simps = run_def init_def queueTTS_def processTTSQueue_def while_head_def resume_def
  catch_block_def after_play_def writeFileSync_def no_file_def in_flight_def now_playing_def
  submitted_def

lemma run_demo:
  "run demo = \<lparr>ttsQueue = [], isProcessingQueue = True,
     loops = [AwaitPlay \<lparr>item_text = ''c'', handle = 2\<rparr>], promises = 3,
     settled = [(0, Resolve (spoken ''a'')), (1, Reject (failed_to_speak ''quota''))],
     convertCalls = [\<lparr>item_text = ''a'', handle = 0\<rparr>, \<lparr>item_text = ''b'', handle = 1\<rparr>,
                     \<lparr>item_text = ''c'', handle = 2\<rparr>],
     playCalls = [(0, [1]), (2, [2])],
     completeFile = \<lparr>content = Some \<lparr>timestamp = 1000, completed = True\<rparr>,
                     history = [\<lparr>timestamp = 1000, completed = True\<rparr>]\<rparr>\<rparr>"
  by (simp add: demo_def exec_simps)

lemma run_demo5:
  "run demo5 = \<lparr>ttsQueue = [\<lparr>item_text = ''c'', handle = 2\<rparr>], isProcessingQueue = True,
     loops = [AwaitConvert \<lparr>item_text = ''b'', handle = 1\<rparr>], promises = 3,
     settled = [(0, Resolve (spoken ''a''))],
     convertCalls = [\<lparr>item_text = ''a'', handle = 0\<rparr>, \<lparr>item_text = ''b'', handle = 1\<rparr>],
     playCalls = [(0, [1])],
     completeFile = \<lparr>content = Some \<lparr>timestamp = 1000, completed = True\<rparr>,
                     history = [\<lparr>timestamp = 1000, completed = True\<rparr>]\<rparr>\<rparr>"
  by (simp add: demo5_def exec_simps)

lemma run_demo_done:
  "run demo_done = \<lparr>ttsQueue = [], isProcessingQueue = False, loops = [], promises = 3,
     settled = [(0, Resolve (spoken ''a'')), (1, Reject (failed_to_speak ''quota'')),
                (2, Resolve (spoken ''c''))],
     convertCalls = [\<lparr>item_text = ''a'', handle = 0\<rparr>, \<lparr>item_text = ''b'', handle = 1\<rparr>,
                     \<lparr>item_text = ''c'', handle = 2\<rparr>],
     playCalls = [(0, [1]), (2, [2])],
     completeFile = \<lparr>content = Some \<lparr>timestamp = 2000, completed = True\<rparr>,
                     history = [\<lparr>timestamp = 1000, completed = True\<rparr>,
                                \<lparr>timestamp = 2000, completed = True\<rparr>]\<rparr>\<rparr>"
  by (simp add: demo_done_def demo5_def exec_simps)

lemma catch_block_fields [simp]:
  "ttsQueue (catch_block it m s) = ttsQueue s"
  "loops (catch_block it m s) = loops s"
  "isProcessingQueue (catch_block it m s) = isProcessingQueue s"
  "convertCalls (catch_block it m s) = convertCalls s"
  "playCalls (catch_block it m s) = playCalls s"
  "promises (catch_block it m s) = promises s"
  "completeFile (catch_block it m s) = completeFile s"
  "settled (catch_block it m s) = settled s @ [(handle it, Reject (failed_to_speak m))]"
  by (simp_all add: catch_block_def)

lemma after_play_fields [simp]:
  "ttsQueue (after_play it now w s) = ttsQueue s"
  "loops (after_play it now w s) = loops s"
  "isProcessingQueue (after_play it now w s) = isProcessingQueue s"
  "convertCalls (after_play it now w s) = convertCalls s"
  "playCalls (after_play it now w s) = playCalls s"
  "promises (after_play it now w s) = promises s"
  "length (settled (after_play it now w s)) = Suc (length (settled s))"
  by (simp_all add: after_play_def split: fs_write.splits)

lemma resume_fields:
  "settled (resume k s) = settled s"
  "playCalls (resume k s) = playCalls s"
  "promises (resume k s) = promises s"
  "completeFile (resume k s) = completeFile s"
  "convertCalls (resume k s) @ ttsQueue (resume k s) = convertCalls s @ ttsQueue s"
  "isProcessingQueue s \<Longrightarrow> isProcessingQueue (resume k s) = (ttsQueue s \<noteq> [])"
  "loops s = [f] \<Longrightarrow> loops (resume 0 s) = (case ttsQueue s of [] \<Rightarrow> [] | nxt # rest \<Rightarrow> [AwaitConvert nxt])"
  "ttsQueue (resume k s) = tl (ttsQueue s)"
  "convertCalls (resume k s) = convertCalls s @ take 1 (ttsQueue s)"
  by (simp_all add: resume_def while_head_def split: list.splits)

text \<open>What the item in flight does when its attempt ends, in whatever way.\<close>

lemma step_ends_item:
  assumes "loops s = [f]" "isProcessingQueue s"
    and "e = ConvertDone 0 (Inl m) \<and> f = AwaitConvert it \<or>
         (\<exists>r now w. e = PlayDone 0 r now w) \<and> f = AwaitPlay it"
  shows "length (settled (step s e)) = Suc (length (settled s))"
    and "loops (step s e) = (case ttsQueue s of [] \<Rightarrow> [] | nxt # rest \<Rightarrow> [AwaitConvert nxt])"
    and "isProcessingQueue (step s e) = (ttsQueue s \<noteq> [])"
    and "ttsQueue (step s e) = tl (ttsQueue s)"
    and "convertCalls (step s e) = convertCalls s @ take 1 (ttsQueue s)"
  using assms by (auto simp: resume_fields split: option.splits)

lemma pending_step_respond:
  assumes "loops s = [f]" "isProcessingQueue s"
  shows "pending (step s (respond env f)) < pending s"
    and "convertCalls (step s (respond env f)) @ ttsQueue (step s (respond env f)) =
         convertCalls s @ ttsQueue s"
proof -
  show "pending (step s (respond env f)) < pending s"
  proof (cases f)
    case (AwaitPlay it)
    with assms step_ends_item(2,4) [of s f "respond env f" undefined it]
    show ?thesis by (cases "ttsQueue s") (simp_all add: pending_def)
  next
    case (AwaitConvert it)
    show ?thesis
    proof (cases "convert_result env it")
      case (Inr a)
      with AwaitConvert assms show ?thesis by (simp add: pending_def)
    next
      case (Inl m)
      with AwaitConvert assms step_ends_item(2,4) [of s f "respond env f" m it]
      show ?thesis by (cases "ttsQueue s") (simp_all add: pending_def)
    qed
  qed
  show "convertCalls (step s (respond env f)) @ ttsQueue (step s (respond env f)) =
         convertCalls s @ ttsQueue s"
  proof (cases f)
    case (AwaitPlay it)
    with assms step_ends_item(4,5) [of s f "respond env f" undefined it]
    show ?thesis by (cases "ttsQueue s") simp_all
  next
    case (AwaitConvert it)
    show ?thesis
    proof (cases "convert_result env it")
      case (Inr a)
      with AwaitConvert assms show ?thesis by simp
    next
      case (Inl m)
      with AwaitConvert assms step_ends_item(4,5) [of s f "respond env f" m it]
      show ?thesis by (cases "ttsQueue s") simp_all
    qed
  qed
qed

lemma drain_completes:
  "queue_inv evs s \<Longrightarrow> pending s \<le> n \<Longrightarrow>
   loops (drain n env s) = [] \<and>
   convertCalls (drain n env s) = convertCalls s @ ttsQueue s \<and>
   (\<exists>evs'. queue_inv evs' (drain n env s))"
proof (induction n arbitrary: evs s)
  case 0
  then have "loops s = []" "ttsQueue s = []"
    by (cases "loops s"; cases "hd (loops s)"; simp add: pending_def)+
  with 0 show ?case by auto
next
  case (Suc n)
  from Suc.prems(1) show ?case
  proof (cases rule: inv_loops_cases)
    case idle
    with Suc.prems show ?thesis by auto
  next
    case (busy f)
    let ?s = "step s (respond env f)"
    have i: "queue_inv (evs @ [respond env f]) ?s"
      using Suc.prems(1) by (rule inv_step)
    have p: "pending ?s \<le> n"
      using pending_step_respond(1) [OF busy, of env] Suc.prems(2) by simp
    from Suc.IH [OF i p] pending_step_respond(2) [OF busy, of env] busy
    show ?thesis by simp
  qed
qed


lemma distinct_handles:
  assumes "queue_inv evs s"
  shows "distinct (map fst (settled s) @ in_flight s @ map handle (ttsQueue s))"
proof -
  have "map handle (convertCalls s @ ttsQueue s) = [0..<length (submitted evs)]"
    using assms handle_submitted [of evs] by (simp add: queue_inv_def)
  then have "distinct (map handle (convertCalls s @ ttsQueue s))"
    by (simp only: distinct_upt)
  moreover have "map handle (convertCalls s) = map fst (settled s) @ in_flight s"
    using assms by (simp add: queue_inv_def in_flight_def)
  ultimately show ?thesis by simp
qed

lemma failure_event_ends_item:
  assumes "queue_inv evs s" "k < length (loops s)"
  shows "loops s = [loops s ! k]" "isProcessingQueue s"
    "failure_event k (loops s ! k) m now w = ConvertDone 0 (Inl m) \<and>
       loops s ! k = AwaitConvert (frame_item (loops s ! k)) \<or>
     (\<exists>r now' w'. failure_event k (loops s ! k) m now w = PlayDone 0 r now' w') \<and>
       loops s ! k = AwaitPlay (frame_item (loops s ! k))"
    "settled (step s (failure_event k (loops s ! k) m now w)) =
       settled s @ [(handle (frame_item (loops s ! k)), Reject (failed_to_speak m))]"
proof -
  from assms obtain f where f: "loops s = [f]" "k = 0" "isProcessingQueue s"
    by (cases "loops s") (auto simp: queue_inv_def)
  then show "loops s = [loops s ! k]" "isProcessingQueue s" by simp_all
  from f show "failure_event k (loops s ! k) m now w = ConvertDone 0 (Inl m) \<and>
       loops s ! k = AwaitConvert (frame_item (loops s ! k)) \<or>
     (\<exists>r now' w'. failure_event k (loops s ! k) m now w = PlayDone 0 r now' w') \<and>
       loops s ! k = AwaitPlay (frame_item (loops s ! k))"
    by (cases f) simp_all
  from f show "settled (step s (failure_event k (loops s ! k) m now w)) =
       settled s @ [(handle (frame_item (loops s ! k)), Reject (failed_to_speak m))]"
    by (cases f) (simp_all add: resume_fields)
qed

lemma flag_reset_iff:
  assumes i: "queue_inv evs s" and b: "isProcessingQueue s"
  shows "\<not> isProcessingQueue (step s e) \<longleftrightarrow>
           ttsQueue s = [] \<and> length (settled (step s e)) = Suc (length (settled s))"
proof -
  from i b obtain f where f: "loops s = [f]"
    by (cases rule: inv_loops_cases) simp_all
  show ?thesis
  proof (cases e)
    case (Speak t)
    with b show ?thesis by (simp add: queueTTS_busy)
  next
    case (ConvertDone k r)
    show ?thesis
    proof (cases "k = 0 \<and> (\<exists>it m. f = AwaitConvert it \<and> r = Inl m)")
      case True
      then obtain it m where "f = AwaitConvert it" "e = ConvertDone 0 (Inl m)"
        using ConvertDone by blast
      with step_ends_item(1,3) [OF f b, of e m it] show ?thesis by simp
    next
      case False
      with ConvertDone f b show ?thesis
        by (cases f; cases r; cases k) simp_all
    qed
  next
    case (PlayDone k r now w)
    show ?thesis
    proof (cases "k = 0 \<and> (\<exists>it. f = AwaitPlay it)")
      case True
      then obtain it where "f = AwaitPlay it" "e = PlayDone 0 r now w"
        using PlayDone by blast
      with step_ends_item(1,3) [OF f b, of e undefined it] show ?thesis by simp
    next
      case False
      with PlayDone f b show ?thesis
        by (cases f; cases k) simp_all
    qed
  qed
qed

lemma run_empty_request:
  "run empty_request = \<lparr>ttsQueue = [], isProcessingQueue = True,
     loops = [AwaitConvert \<lparr>item_text = [], handle = 0\<rparr>], promises = 1,
     settled = [], convertCalls = [\<lparr>item_text = [], handle = 0\<rparr>],
     playCalls = [], completeFile = no_file\<rparr>"
  by (simp add: empty_request_def exec_simps)

lemma queueTTS_settled: "settled (queueTTS t s) = settled s"
  by (simp add: queueTTS_def processTTSQueue_def while_head_def split: list.splits)

lemma defaults_on_autoListen: "defaults_on ''autoListen'' = Some (JBool True)"
  by (simp add: defaults_on_def getEffectiveConfig_def loadConfig_def loadConfig_try_def
        fallback_config_def DEFAULT_CONFIG_def)


lemma run_playing_hi:
  "run playing_hi = \<lparr>ttsQueue = [\<lparr>item_text = ''there'', handle = 1\<rparr>],
     isProcessingQueue = True, loops = [AwaitPlay \<lparr>item_text = ''hi'', handle = 0\<rparr>],
     promises = 2, settled = [], convertCalls = [\<lparr>item_text = ''hi'', handle = 0\<rparr>],
     playCalls = [(0, [1])], completeFile = no_file\<rparr>"
  by (simp add: playing_hi_def exec_simps)

lemma defaults_off_autoListen: "defaults_off ''autoListen'' = Some (JBool False)"
  by (simp add: defaults_off_def getEffectiveConfig_def loadConfig_def loadConfig_try_def
        merge_parsed_def get_prop_def)

lemma queueTTS_completeFile: "completeFile (queueTTS t s) = completeFile s"
  by (simp add: queueTTS_def processTTSQueue_def while_head_def split: list.splits)

lemma after_play_completeFile:
  "completeFile (after_play it now w s) =
     (case w of WriteOk \<Rightarrow> writeFileSync \<lparr>timestamp = now, completed = True\<rparr> (completeFile s)
              | WriteThrows m \<Rightarrow> completeFile s)"
  by (simp add: after_play_def split: fs_write.splits)

lemma step_completeFile:
  "completeFile (step s e) =
     (if writes_signal s e
      then writeFileSync \<lparr>timestamp = event_clock e, completed = True\<rparr> (completeFile s)
      else completeFile s)"
proof (cases e)
  case (Speak t)
  then show ?thesis by (simp add: queueTTS_completeFile writes_signal_def)
next
  case (ConvertDone k r)
  then show ?thesis
    by (simp add: writes_signal_def resume_fields split: frame.splits sum.splits)
next
  case (PlayDone k r now w)
  then show ?thesis
    by (cases w)
       (simp_all add: writes_signal_def resume_fields after_play_completeFile
          split: frame.splits option.splits)
qed

lemma clock_readings_snoc:
  "clock_readings (evs @ [e]) =
     clock_readings evs @ (case e of PlayDone k r now w \<Rightarrow> [now] | _ \<Rightarrow> [])"
  by (induction evs rule: clock_readings.induct) (simp_all split: event.splits)

lemma history_subseq_clock:
  "subseq (map timestamp (history (completeFile (run evs)))) (clock_readings evs) \<and>
   list_all completed (history (completeFile (run evs))) \<and>
   content (completeFile (run evs)) =
     (if history (completeFile (run evs)) = [] then None
      else Some (last (history (completeFile (run evs)))))"
proof (induction evs rule: rev_induct)
  case Nil
  show ?case by (simp add: run_Nil init_def no_file_def)
next
  case (snoc e evs)
  show ?case
  proof (cases "writes_signal (run evs) e")
    case False
    with snoc show ?thesis
      by (simp add: run_snoc step_completeFile clock_readings_snoc subseq_rev_drop_many
            del: step.simps split: event.splits)
  next
    case True
    then obtain k r now w where e: "e = PlayDone k r now w"
      by (cases e) (simp_all add: writes_signal_def)
    with True snoc show ?thesis
      by (simp add: run_snoc step_completeFile clock_readings_snoc writeFileSync_def
            list_emb_append_mono del: step.simps)
  qed
qed


lemma sorted_wrt_subseq:
  "subseq xs ys \<Longrightarrow> sorted_wrt P ys \<Longrightarrow> sorted_wrt P xs"
proof (induction xs ys rule: list_emb.induct)
  case (list_emb_Nil ys)
  show ?case by simp
next
  case (list_emb_Cons xs ys y)
  then show ?case by simp
next
  case (list_emb_Cons2 x y xs ys)
  have "\<forall>z\<in>set xs. P x z"
  proof
    fix z assume "z \<in> set xs"
    with list_emb_Cons2.hyps(2) have "z \<in> set ys" by (auto elim: list_emb_set)
    with list_emb_Cons2.prems list_emb_Cons2.hyps(1) show "P x z" by simp
  qed
  with list_emb_Cons2 show ?case by simp
qed









lemma queueTTS_convertCalls_busy:
  "isProcessingQueue s \<Longrightarrow> convertCalls (queueTTS t s) = convertCalls s"
  by (simp add: queueTTS_busy)




subsection \<open>C1: utterances are attempted in the order submitted, one at a time\<close>



subsection \<open>C2: a failure settles its own item only, and the loop goes on\<close>

text \<open>
  Claim C2. In any reachable state, let the attempt of the item in flight (slot \<open>k\<close>) fail:
  the promise of \<open>convert\<close> or of \<open>play\<close> is rejected with \<open>errorMessage\<close>. Then exactly
  one settlement is added, the rejection of that item's handle with the result whose text
  is "Failed to speak: " followed by \<open>errorMessage\<close> and whose \<open>isError\<close> is true; the
  item is neither in flight nor in
  the queue afterwards and no handle occurs twice among the gateway calls (no retry); if
  the queue holds a next item, the gateway is called for it at once, otherwise the loop
  ends; and once the awaited promises have settled, whatever their outcomes, the gateway
  has been called for every item that was queued behind the failed one, in order, each
  item has been settled, and the flag is reset.
\<close>

theorem failure_is_local:
  assumes k: "k < length (loops (run evs))"
    and f: "f = loops (run evs) ! k"
    and s': "s' = step (run evs) (failure_event k f errorMessage now w)"
  shows "settled s' =
           settled (run evs) @
             [(handle (frame_item f),
               Reject \<lparr>content_text = ''Failed to speak: '' @ errorMessage, isError = True\<rparr>)] \<and>
         handle (frame_item f) \<notin> set (in_flight s') \<and>
         handle (frame_item f) \<notin> set (map handle (ttsQueue s')) \<and>
         distinct (map handle (convertCalls s')) \<and>
         (case ttsQueue (run evs) of
            [] \<Rightarrow> loops s' = [] \<and> convertCalls s' = convertCalls (run evs)
          | nxt # rest \<Rightarrow> loops s' = [AwaitConvert nxt] \<and> ttsQueue s' = rest \<and>
                         convertCalls s' = convertCalls (run evs) @ [nxt]) \<and>
         (pending s' \<le> n \<longrightarrow>
            convertCalls (drain n env s') = convertCalls (run evs) @ ttsQueue (run evs) \<and>
            length (settled (drain n env s')) = length (convertCalls (drain n env s')) \<and>
            \<not> isProcessingQueue (drain n env s'))"
proof -
  let ?s = "run evs"
  let ?e = "failure_event k f errorMessage now w"
  have i: "queue_inv evs ?s" by (rule inv_run)
  have i': "queue_inv (evs @ [?e]) s'" unfolding s' using i by (rule inv_step)
  note fe12 = failure_event_ends_item(1,2) [OF i k, folded f]
  note fe3 = failure_event_ends_item(3) [OF i k, of errorMessage now w, folded f]
  note fe4 = failure_event_ends_item(4) [OF i k, of errorMessage now w, folded f]
  note ends = step_ends_item [OF fe12(1) fe12(2) fe3, folded s']
  have st: "settled s' =
      settled ?s @
        [(handle (frame_item f),
          Reject \<lparr>content_text = ''Failed to speak: '' @ errorMessage, isError = True\<rparr>)]"
    unfolding s' using fe4 by (simp only: failed_to_speak_def)
  have d: "distinct (map fst (settled s') @ in_flight s' @ map handle (ttsQueue s'))"
    using i' by (rule distinct_handles)
  have nr: "handle (frame_item f) \<notin> set (in_flight s')"
    "handle (frame_item f) \<notin> set (map handle (ttsQueue s'))"
    using d unfolding st by auto
  have "map handle (convertCalls s') = map fst (settled s') @ in_flight s'"
    using i' by (simp add: queue_inv_def in_flight_def)
  with d have dc: "distinct (map handle (convertCalls s'))" by auto
  have nx: "(case ttsQueue ?s of
            [] \<Rightarrow> loops s' = [] \<and> convertCalls s' = convertCalls ?s
          | nxt # rest \<Rightarrow> loops s' = [AwaitConvert nxt] \<and> ttsQueue s' = rest \<and>
                         convertCalls s' = convertCalls ?s @ [nxt])"
    using ends(2,4,5) by (cases "ttsQueue ?s") simp_all
  have cq: "convertCalls s' @ ttsQueue s' = convertCalls ?s @ ttsQueue ?s"
    using ends(4,5) by (cases "ttsQueue ?s") simp_all
  have dr: "pending s' \<le> n \<longrightarrow>
            convertCalls (drain n env s') = convertCalls ?s @ ttsQueue ?s \<and>
            length (settled (drain n env s')) = length (convertCalls (drain n env s')) \<and>
            \<not> isProcessingQueue (drain n env s')"
  proof
    assume p: "pending s' \<le> n"
    from drain_completes [OF i' p, of env] obtain evs' where
      dl: "loops (drain n env s') = []"
      and dcc: "convertCalls (drain n env s') = convertCalls s' @ ttsQueue s'"
      and di: "queue_inv evs' (drain n env s')" by blast
    from di dl have "map handle (convertCalls (drain n env s')) = map fst (settled (drain n env s'))"
      and np: "\<not> isProcessingQueue (drain n env s')"
      by (simp_all add: queue_inv_def)
    then have "length (convertCalls (drain n env s')) = length (settled (drain n env s'))"
      using length_map by metis
    with dcc cq np show "convertCalls (drain n env s') = convertCalls ?s @ ttsQueue ?s \<and>
            length (settled (drain n env s')) = length (convertCalls (drain n env s')) \<and>
            \<not> isProcessingQueue (drain n env s')" by simp
  qed
  from st nr dc nx dr show ?thesis by blast
qed


theorem failure_is_local_witness:
  "0 < length (loops (run demo5)) \<and>
   AwaitConvert \<lparr>item_text = ''b'', handle = 1\<rparr> = loops (run demo5) ! 0 \<and>
   settled (step (run demo5) (ConvertDone 0 (Inl ''quota''))) =
     [(0, Resolve \<lparr>content_text = ''Spoken: '' @ [CHR 0x22] @ ''a'' @ [CHR 0x22],
                   isError = False\<rparr>),
      (1, Reject \<lparr>content_text = ''Failed to speak: quota'', isError = True\<rparr>)] \<and>
   loops (step (run demo5) (ConvertDone 0 (Inl ''quota''))) =
     [AwaitConvert \<lparr>item_text = ''c'', handle = 2\<rparr>] \<and>
   ttsQueue (step (run demo5) (ConvertDone 0 (Inl ''quota''))) = [] \<and>
   pending (step (run demo5) (ConvertDone 0 (Inl ''quota''))) \<le> 2 \<and>
   convertCalls (drain 2 healthy (step (run demo5) (ConvertDone 0 (Inl ''quota'')))) =
     [\<lparr>item_text = ''a'', handle = 0\<rparr>, \<lparr>item_text = ''b'', handle = 1\<rparr>,
      \<lparr>item_text = ''c'', handle = 2\<rparr>] \<and>
   length (settled (drain 2 healthy (step (run demo5) (ConvertDone 0 (Inl ''quota''))))) = 3"
proof -
  have k: "0 < length (loops (run demo5))" by (simp add: run_demo5)
  have f: "AwaitConvert \<lparr>item_text = ''b'', handle = 1\<rparr> = loops (run demo5) ! 0"
    by (simp add: run_demo5)
  have p: "pending (step (run demo5) (ConvertDone 0 (Inl ''quota''))) \<le> 2"
    by (simp add: run_demo5 pending_def resume_def while_head_def catch_block_def)
  from failure_is_local [OF k f refl, of "''quota''" 0 WriteOk 2 healthy] k f p
  show ?thesis
    by (simp add: run_demo5 resume_def while_head_def catch_block_def spoken_def
          failed_to_speak_def)
qed

subsection \<open>C3: the life cycle of the flag isProcessingQueue\<close>

text \<open>
  Claim C3. The flag is false at startup. In any reachable state it is set exactly while
  an activation of the drain loop is suspended, and there is at most one activation.
  While it is set, an event resets it exactly when the event settles an item (with
  success or with an error) and the queue is empty at that moment. While it is not set,
  the queue is empty and the next \<open>speak\<close> starts a new loop for its item. And whatever
  the outcomes of the awaited promises, once they have settled the flag is reset and the
  queue is empty: no failure leaves the flag set.
\<close>

theorem guard_lifecycle:
  "\<not> isProcessingQueue init \<and>
   (isProcessingQueue (run evs) \<longleftrightarrow> loops (run evs) \<noteq> []) \<and>
   length (loops (run evs)) \<le> 1 \<and>
   (isProcessingQueue (run evs) \<longrightarrow>
      (\<not> isProcessingQueue (step (run evs) e) \<longleftrightarrow>
         ttsQueue (run evs) = [] \<and>
         length (settled (step (run evs) e)) = Suc (length (settled (run evs))))) \<and>
   (\<not> isProcessingQueue (run evs) \<longrightarrow>
      ttsQueue (run evs) = [] \<and>
      isProcessingQueue (step (run evs) (Speak t)) \<and>
      loops (step (run evs) (Speak t)) =
        [AwaitConvert \<lparr>item_text = t, handle = promises (run evs)\<rparr>]) \<and>
   (pending (run evs) \<le> n \<longrightarrow>
      \<not> isProcessingQueue (drain n env (run evs)) \<and> ttsQueue (drain n env (run evs)) = [])"
proof -
  let ?s = "run evs"
  have i: "queue_inv evs ?s" by (rule inv_run)
  have a: "\<not> isProcessingQueue init" by (simp add: init_def)
  from i have b: "isProcessingQueue ?s \<longleftrightarrow> loops ?s \<noteq> []" and c: "length (loops ?s) \<le> 1"
    by (simp_all add: queue_inv_def)
  have d: "isProcessingQueue ?s \<longrightarrow>
      (\<not> isProcessingQueue (step ?s e) \<longleftrightarrow>
         ttsQueue ?s = [] \<and> length (settled (step ?s e)) = Suc (length (settled ?s)))"
    using flag_reset_iff [OF i] by blast
  have e: "\<not> isProcessingQueue ?s \<longrightarrow>
      ttsQueue ?s = [] \<and> isProcessingQueue (step ?s (Speak t)) \<and>
      loops (step ?s (Speak t)) = [AwaitConvert \<lparr>item_text = t, handle = promises ?s\<rparr>]"
  proof
    assume n: "\<not> isProcessingQueue ?s"
    with i have q: "ttsQueue ?s = []" and l: "loops ?s = []" by (simp_all add: queue_inv_def)
    with n show "ttsQueue ?s = [] \<and> isProcessingQueue (step ?s (Speak t)) \<and>
      loops (step ?s (Speak t)) = [AwaitConvert \<lparr>item_text = t, handle = promises ?s\<rparr>]"
      by (simp add: queueTTS_idle)
  qed
  have g: "pending ?s \<le> n \<longrightarrow>
      \<not> isProcessingQueue (drain n env ?s) \<and> ttsQueue (drain n env ?s) = []"
  proof
    assume p: "pending ?s \<le> n"
    from drain_completes [OF i p, of env] obtain evs' where
      "loops (drain n env ?s) = []" "queue_inv evs' (drain n env ?s)" by blast
    then show "\<not> isProcessingQueue (drain n env ?s) \<and> ttsQueue (drain n env ?s) = []"
      by (simp add: queue_inv_def)
  qed
  from a b c d e g show ?thesis by blast
qed

theorem guard_lifecycle_witness:
  "isProcessingQueue (run demo5) \<and>
   loops (run demo5) \<noteq> [] \<and>
   ttsQueue (run demo5) \<noteq> [] \<and>
   isProcessingQueue (step (run demo5) (ConvertDone 0 (Inl ''quota''))) \<and>
   pending (run demo5) \<le> 4 \<and>
   \<not> isProcessingQueue (drain 4 healthy (run demo5)) \<and>
   isProcessingQueue (run demo) \<and>
   ttsQueue (run demo) = [] \<and>
   \<not> isProcessingQueue (step (run demo) (PlayDone 0 None 2000 WriteOk)) \<and>
   \<not> isProcessingQueue (run demo_done) \<and>
   loops (step (run demo_done) (Speak ''d'')) = [AwaitConvert \<lparr>item_text = ''d'', handle = 3\<rparr>] \<and>
   isProcessingQueue (step (run demo_done) (Speak ''d''))"
proof -
  have p: "pending (run demo5) \<le> 4" by (simp add: run_demo5 pending_def)
  have q: "length (settled (step (run demo) (PlayDone 0 None 2000 WriteOk))) =
             Suc (length (settled (run demo)))"
    by (simp add: run_demo resume_fields)
  from guard_lifecycle [of demo5 "ConvertDone 0 (Inl ''quota'')" "''d''" 4 healthy]
    guard_lifecycle [of demo "PlayDone 0 None 2000 WriteOk" "''d''" 4 healthy]
    guard_lifecycle [of demo_done "ConvertDone 0 (Inl ''quota'')" "''d''" 4 healthy] p q
  show ?thesis
    by (simp add: run_demo5 run_demo run_demo_done)
qed

subsection \<open>C4: speak does not validate its text\<close>

text \<open>
  Claim C4 says that an empty or blank text is rejected before it is enqueued. The code
  has no such check (the input schema is \<open>z.string()\<close>, and \<open>queueTTS\<close> pushes what it
  is given): for the empty text and for a text of two spaces the gateway is called, and
  nothing is rejected.
\<close>

theorem empty_text_is_enqueued:
  "convertCalls (run empty_request) = [\<lparr>item_text = [], handle = 0\<rparr>] \<and>
   settled (run empty_request) = [] \<and>
   convertCalls (run blank_request) = [\<lparr>item_text = ''  '', handle = 0\<rparr>] \<and>
   settled (run blank_request) = []"
  by (simp add: run_empty_request) (simp add: blank_request_def exec_simps)

text \<open>
  Claim C4 as amended. For every text \<open>t\<close>, the empty and the blank ones included, and in
  every reachable state, \<open>speak t\<close> settles nothing; while a loop is running the item
  joins the end of the queue, otherwise the gateway is called for it at once; and once
  the awaited promises have settled, the gateway has been called for it.
\<close>

theorem speak_accepts_any_text:
  "settled (step (run evs) (Speak t)) = settled (run evs) \<and>
   (isProcessingQueue (run evs) \<longrightarrow>
      ttsQueue (step (run evs) (Speak t)) =
        ttsQueue (run evs) @ [\<lparr>item_text = t, handle = promises (run evs)\<rparr>] \<and>
      convertCalls (step (run evs) (Speak t)) = convertCalls (run evs)) \<and>
   (\<not> isProcessingQueue (run evs) \<longrightarrow>
      ttsQueue (step (run evs) (Speak t)) = [] \<and>
      convertCalls (step (run evs) (Speak t)) =
        convertCalls (run evs) @ [\<lparr>item_text = t, handle = promises (run evs)\<rparr>]) \<and>
   (pending (step (run evs) (Speak t)) \<le> n \<longrightarrow>
      \<lparr>item_text = t, handle = promises (run evs)\<rparr>
        \<in> set (convertCalls (drain n env (step (run evs) (Speak t)))))"
proof -
  let ?s = "run evs"
  let ?s' = "step ?s (Speak t)"
  let ?it = "\<lparr>item_text = t, handle = promises ?s\<rparr>"
  have i: "queue_inv evs ?s" by (rule inv_run)
  have i': "queue_inv (evs @ [Speak t]) ?s'" using i by (rule inv_step)
  have a: "settled ?s' = settled ?s" by (simp add: queueTTS_settled)
  have b: "isProcessingQueue ?s \<longrightarrow>
      ttsQueue ?s' = ttsQueue ?s @ [?it] \<and> convertCalls ?s' = convertCalls ?s"
    by (simp add: queueTTS_busy)
  have c: "\<not> isProcessingQueue ?s \<longrightarrow>
      ttsQueue ?s' = [] \<and> convertCalls ?s' = convertCalls ?s @ [?it]"
  proof
    assume n: "\<not> isProcessingQueue ?s"
    with i have "ttsQueue ?s = []" by (simp add: queue_inv_def)
    with n show "ttsQueue ?s' = [] \<and> convertCalls ?s' = convertCalls ?s @ [?it]"
      by (simp add: queueTTS_idle)
  qed
  from b c have m: "?it \<in> set (convertCalls ?s' @ ttsQueue ?s')"
    by (cases "isProcessingQueue ?s") simp_all
  have d: "pending ?s' \<le> n \<longrightarrow> ?it \<in> set (convertCalls (drain n env ?s'))"
  proof
    assume p: "pending ?s' \<le> n"
    from drain_completes [OF i' p, of env]
    have "convertCalls (drain n env ?s') = convertCalls ?s' @ ttsQueue ?s'" by blast
    with m show "?it \<in> set (convertCalls (drain n env ?s'))" by simp
  qed
  from a b c d show ?thesis by blast
qed

theorem speak_accepts_any_text_witness:
  "\<not> isProcessingQueue (run []) \<and>
   settled (step (run []) (Speak [])) = [] \<and>
   convertCalls (step (run []) (Speak [])) = [\<lparr>item_text = [], handle = 0\<rparr>] \<and>
   isProcessingQueue (run demo5) \<and>
   ttsQueue (step (run demo5) (Speak ''  '')) =
     [\<lparr>item_text = ''c'', handle = 2\<rparr>, \<lparr>item_text = ''  '', handle = 3\<rparr>] \<and>
   pending (step (run demo5) (Speak ''  '')) \<le> 6 \<and>
   \<lparr>item_text = ''  '', handle = 3\<rparr>
     \<in> set (convertCalls (drain 6 healthy (step (run demo5) (Speak ''  ''))))"
proof -
  have p: "pending (step (run demo5) (Speak ''  '')) \<le> 6"
    by (simp add: run_demo5 pending_def queueTTS_def processTTSQueue_def)
  from speak_accepts_any_text [of "[]" "[]" 0 healthy]
    speak_accepts_any_text [of demo5 "''  ''" 6 healthy] p
  show ?thesis
    by (simp add: run_demo5 run_Nil init_def queueTTS_def processTTSQueue_def while_head_def)
qed


subsection \<open>C5: a failing signal write fails the call\<close>




subsection \<open>C6: the contract of listen\<close>

text \<open>
  Claim C6 says that with \<open>autoListen\<close> on, every call writes a record and returns the
  "listening" result. When \<open>writeFileSync\<close> throws, the \<open>catch\<close> block of the handler
  returns an error result instead, and no record has been written.
\<close>

theorem listen_write_failure:
  "truthy_opt (defaults_on ''autoListen'') \<and>
   listen defaults_on 5 (WriteThrows ''EROFS'') no_file = (no_file, failed_to_listen ''EROFS'') \<and>
   failed_to_listen ''EROFS'' \<noteq> listening \<and>
   isError (failed_to_listen ''EROFS'') \<and>
   history (fst (listen defaults_on 5 (WriteThrows ''EROFS'') no_file)) = []"
  by (simp add: listen_def defaults_on_autoListen truthy_opt_def failed_to_listen_def
        listening_def no_file_def)

text \<open>
  Claim C6 as amended. With \<open>autoListen\<close> false (or any value JavaScript takes for
  false) \<open>listen\<close> returns the result "Auto-listen is disabled" and leaves the file as
  it is, whatever the file system would do. With \<open>autoListen\<close> true it calls
  \<open>writeFileSync\<close> once: when the write succeeds, the file holds the fresh record
  \<open>{timestamp: now, triggered: true}\<close> alone, one write has been added, and the result is
  "Listening for user input..."; when the write throws, the result is the error
  "Failed to start listening: errorMessage".
\<close>

theorem listen_contract:
  "(\<not> truthy_opt (config ''autoListen'') \<longrightarrow> listen config now w f = (f, listen_disabled)) \<and>
   (truthy_opt (config ''autoListen'') \<longrightarrow>
      listen config now WriteOk f =
        (\<lparr>content = Some \<lparr>timestamp = now, triggered = True\<rparr>,
          history = history f @ [\<lparr>timestamp = now, triggered = True\<rparr>]\<rparr>, listening) \<and>
      listen config now (WriteThrows errorMessage) f = (f, failed_to_listen errorMessage))"
  by (simp add: listen_def writeFileSync_def)

theorem listen_contract_witness:
  "\<not> truthy_opt (defaults_off ''autoListen'') \<and>
   listen defaults_off 5 WriteOk no_file = (no_file, listen_disabled) \<and>
   truthy_opt (defaults_on ''autoListen'') \<and>
   listen defaults_on 5 WriteOk no_file =
     (\<lparr>content = Some \<lparr>timestamp = 5, triggered = True\<rparr>,
       history = [\<lparr>timestamp = 5, triggered = True\<rparr>]\<rparr>, listening) \<and>
   listen defaults_on 5 (WriteThrows ''EROFS'') no_file = (no_file, failed_to_listen ''EROFS'')"
  using listen_contract [of defaults_off 5 WriteOk no_file "''EROFS''"]
    listen_contract [of defaults_on 5 WriteOk no_file "''EROFS''"]
  by (simp add: defaults_on_autoListen defaults_off_autoListen truthy_opt_def no_file_def)


subsection \<open>C7: the timestamps of tts-complete.json\<close>

text \<open>
  Claim C7 says that every write carries a timestamp strictly later than the previous
  one. The code writes what the wall clock (\<open>new Date()\<close>) reads and compares nothing:
  when the clock is set back between two playbacks, the second record is the earlier.
\<close>

theorem signal_timestamp_not_later:
  "map timestamp (history (completeFile (run clock_steps_back))) = [1000, 400] \<and>
   content (completeFile (run clock_steps_back)) = Some \<lparr>timestamp = 400, completed = True\<rparr> \<and>
   map fst (settled (run clock_steps_back)) = [0, 1] \<and>
   \<not> (1000 :: nat) < 400"
  by (simp add: clock_steps_back_def exec_simps)

text \<open>
  Claim C7 as amended. The timestamps written to tts-complete.json are, in order, among
  the clock readings of the run; so they are strictly increasing whenever the clock
  readings are. The file holds the last record written. And after a successful playback
  whose write succeeds, the file holds \<open>{timestamp: now, completed: true}\<close> for the
  reading \<open>now\<close> of that moment, one write having been added.
\<close>

theorem signal_timestamps_follow_clock:
  "subseq (map timestamp (history (completeFile (run evs)))) (clock_readings evs) \<and>
   (sorted_wrt (<) (clock_readings evs) \<longrightarrow>
      sorted_wrt (<) (map timestamp (history (completeFile (run evs))))) \<and>
   content (completeFile (run evs)) =
     (if history (completeFile (run evs)) = [] then None
      else Some (last (history (completeFile (run evs))))) \<and>
   (k < length (loops (run evs)) \<and> loops (run evs) ! k = AwaitPlay it \<longrightarrow>
      completeFile (step (run evs) (PlayDone k None now WriteOk)) =
        \<lparr>content = Some \<lparr>timestamp = now, completed = True\<rparr>,
         history = history (completeFile (run evs)) @ [\<lparr>timestamp = now, completed = True\<rparr>]\<rparr>)"
proof -
  note h = history_subseq_clock [of evs]
  from h have a: "subseq (map timestamp (history (completeFile (run evs)))) (clock_readings evs)"
    by blast
  then have b: "sorted_wrt (<) (clock_readings evs) \<longrightarrow>
      sorted_wrt (<) (map timestamp (history (completeFile (run evs))))"
    using sorted_wrt_subseq by blast
  have d: "k < length (loops (run evs)) \<and> loops (run evs) ! k = AwaitPlay it \<longrightarrow>
      completeFile (step (run evs) (PlayDone k None now WriteOk)) =
        \<lparr>content = Some \<lparr>timestamp = now, completed = True\<rparr>,
         history = history (completeFile (run evs)) @ [\<lparr>timestamp = now, completed = True\<rparr>]\<rparr>"
    by (simp add: step_completeFile writes_signal_def writeFileSync_def del: step.simps)
  from a b h d show ?thesis by blast
qed

theorem signal_timestamps_follow_clock_witness:
  "clock_readings demo_done = [1000, 2000] \<and>
   sorted_wrt (<) (clock_readings demo_done) \<and>
   map timestamp (history (completeFile (run demo_done))) = [1000, 2000] \<and>
   sorted_wrt (<) (map timestamp (history (completeFile (run demo_done)))) \<and>
   0 < length (loops (run playing_hi)) \<and>
   loops (run playing_hi) ! 0 = AwaitPlay \<lparr>item_text = ''hi'', handle = 0\<rparr> \<and>
   completeFile (step (run playing_hi) (PlayDone 0 None 77 WriteOk)) =
     \<lparr>content = Some \<lparr>timestamp = 77, completed = True\<rparr>,
      history = [\<lparr>timestamp = 77, completed = True\<rparr>]\<rparr>"
proof -
  have c: "clock_readings demo_done = [1000, 2000]"
    by (simp add: demo_done_def demo5_def)
  from signal_timestamps_follow_clock [of demo_done 0 "\<lparr>item_text = ''hi'', handle = 0\<rparr>" 77]
    signal_timestamps_follow_clock [of playing_hi 0 "\<lparr>item_text = ''hi'', handle = 0\<rparr>" 77] c
  show ?thesis
    by (simp add: run_demo_done run_playing_hi no_file_def)
qed

section \<open>Properties of the configuration and of the settings server\<close>

lemma fallback_is_default: "fallback_config = DEFAULT_CONFIG"
  by (rule ext) (simp add: fallback_config_def DEFAULT_CONFIG_def)

lemma merge_parsed_null: "merge_parsed JNull = Inl TypeError"
  by (simp add: merge_parsed_def get_prop_def)

lemma get_prop_not_null: "p \<noteq> JNull \<Longrightarrow> get_prop p k = Inr (own_props p k)"
  by (cases p) (simp_all add: get_prop_def)

lemma merge_parsed_not_null:
  "p \<noteq> JNull \<Longrightarrow>
   merge_parsed p =
     Inr ((DEFAULT_CONFIG ++ own_props p)
            (''voiceSettings'' :=
               Some (JObj (DEFAULT_VOICE_SETTINGS ++ own_props (or_empty (own_props p ''voiceSettings'')))),
             ''autoSubmit'' :=
               Some (JObj (DEFAULT_AUTO_SUBMIT ++ own_props (or_empty (own_props p ''autoSubmit'')))),
             ''wisprLoop'' :=
               Some (JObj (DEFAULT_WISPR_LOOP ++ own_props (or_empty (own_props p ''wisprLoop'')))),
             ''autoListen'' :=
               (case own_props p ''autoListen'' of None \<Rightarrow> DEFAULT_CONFIG ''autoListen''
                | Some v \<Rightarrow> Some v)))"
  by (simp add: merge_parsed_def get_prop_not_null)

lemma loadConfig_simps:
  "loadConfig Absent = DEFAULT_CONFIG"
  "loadConfig ReadThrows = DEFAULT_CONFIG"
  "loadConfig ParseThrows = DEFAULT_CONFIG"
  "loadConfig (Holds JNull) = DEFAULT_CONFIG"
  by (simp_all add: loadConfig_def loadConfig_try_def fallback_is_default merge_parsed_null)

lemma loadConfig_Holds:
  "p \<noteq> JNull \<Longrightarrow>
   loadConfig (Holds p) =
     (DEFAULT_CONFIG ++ own_props p)
       (''voiceSettings'' :=
          Some (JObj (DEFAULT_VOICE_SETTINGS ++ own_props (or_empty (own_props p ''voiceSettings'')))),
        ''autoSubmit'' :=
          Some (JObj (DEFAULT_AUTO_SUBMIT ++ own_props (or_empty (own_props p ''autoSubmit'')))),
        ''wisprLoop'' :=
          Some (JObj (DEFAULT_WISPR_LOOP ++ own_props (or_empty (own_props p ''wisprLoop'')))),
        ''autoListen'' :=
          (case own_props p ''autoListen'' of None \<Rightarrow> DEFAULT_CONFIG ''autoListen''
           | Some v \<Rightarrow> Some v))"
  by (simp add: loadConfig_def loadConfig_try_def merge_parsed_not_null)

lemma loadConfig_throws: "loadConfig_try f = Inl e \<Longrightarrow> loadConfig f = DEFAULT_CONFIG"
  by (simp add: loadConfig_def fallback_is_default)

lemma default_populated:
  "\<forall>k\<in>set config_fields. DEFAULT_CONFIG k \<noteq> None"
  "\<forall>k\<in>set voice_fields. DEFAULT_VOICE_SETTINGS k \<noteq> None"
  "\<forall>k\<in>set auto_submit_fields. DEFAULT_AUTO_SUBMIT k \<noteq> None"
  "\<forall>k\<in>set wispr_loop_fields. DEFAULT_WISPR_LOOP k \<noteq> None"
  by (simp_all add: config_fields_def voice_fields_def auto_submit_fields_def
        wispr_loop_fields_def DEFAULT_CONFIG_def DEFAULT_VOICE_SETTINGS_def
        DEFAULT_AUTO_SUBMIT_def DEFAULT_WISPR_LOOP_def)

lemma map_add_populated: "m k \<noteq> None \<Longrightarrow> (m ++ m') k \<noteq> None"
  by (simp add: map_add_def split: option.splits)

lemma loadConfig_top_populated: "\<forall>k\<in>set config_fields. loadConfig f k \<noteq> None"
proof (cases "\<exists>p. f = Holds p \<and> p \<noteq> JNull")
  case False
  then have "loadConfig f = DEFAULT_CONFIG"
    by (cases f) (auto simp: loadConfig_simps)
  with default_populated(1) show ?thesis by simp
next
  case True
  then obtain p where p: "f = Holds p" "p \<noteq> JNull" by blast
  define base where "base = DEFAULT_CONFIG ++ own_props p"
  define al where "al = (case own_props p ''autoListen'' of
                            None \<Rightarrow> DEFAULT_CONFIG ''autoListen'' | Some v \<Rightarrow> Some v)"
  have d: "base k \<noteq> None" if "k \<in> set config_fields" for k
    unfolding base_def using that default_populated(1) by (intro map_add_populated) blast
  have a: "al \<noteq> None"
    by (simp add: al_def DEFAULT_CONFIG_def split: option.splits)
  show ?thesis
  proof
    fix k assume k: "k \<in> set config_fields"
    from d [OF k] a show "loadConfig f k \<noteq> None"
      unfolding p(1) loadConfig_Holds [OF p(2), folded base_def al_def] by simp
  qed
qed

lemma file_group_not_null:
  "p \<noteq> JNull \<Longrightarrow> file_group (Holds p) g = own_props (or_empty (own_props p g))"
  by (cases p) (simp_all add: file_group_def)

lemma loadConfig_groups:
  "loadConfig f ''voiceSettings'' =
     Some (JObj (DEFAULT_VOICE_SETTINGS ++ file_group f ''voiceSettings''))"
  "loadConfig f ''autoSubmit'' =
     Some (JObj (DEFAULT_AUTO_SUBMIT ++ file_group f ''autoSubmit''))"
  "loadConfig f ''wisprLoop'' =
     Some (JObj (DEFAULT_WISPR_LOOP ++ file_group f ''wisprLoop''))"
proof -
  have d: "loadConfig f = DEFAULT_CONFIG \<and> (\<forall>g. file_group f g = Map.empty)"
    if "\<not> (\<exists>p. f = Holds p \<and> p \<noteq> JNull)"
    using that by (cases f) (auto simp: loadConfig_simps file_group_def)
  show "loadConfig f ''voiceSettings'' =
     Some (JObj (DEFAULT_VOICE_SETTINGS ++ file_group f ''voiceSettings''))"
  proof (cases "\<exists>p. f = Holds p \<and> p \<noteq> JNull")
    case False
    from d [OF False] show ?thesis by (simp add: DEFAULT_CONFIG_def)
  next
    case True
    then obtain p where p: "f = Holds p" "p \<noteq> JNull" by blast
    show ?thesis unfolding p(1) loadConfig_Holds [OF p(2)] file_group_not_null [OF p(2)]
      by simp
  qed
  show "loadConfig f ''autoSubmit'' =
     Some (JObj (DEFAULT_AUTO_SUBMIT ++ file_group f ''autoSubmit''))"
  proof (cases "\<exists>p. f = Holds p \<and> p \<noteq> JNull")
    case False
    from d [OF False] show ?thesis by (simp add: DEFAULT_CONFIG_def)
  next
    case True
    then obtain p where p: "f = Holds p" "p \<noteq> JNull" by blast
    show ?thesis unfolding p(1) loadConfig_Holds [OF p(2)] file_group_not_null [OF p(2)]
      by simp
  qed
  show "loadConfig f ''wisprLoop'' =
     Some (JObj (DEFAULT_WISPR_LOOP ++ file_group f ''wisprLoop''))"
  proof (cases "\<exists>p. f = Holds p \<and> p \<noteq> JNull")
    case False
    from d [OF False] show ?thesis by (simp add: DEFAULT_CONFIG_def)
  next
    case True
    then obtain p where p: "f = Holds p" "p \<noteq> JNull" by blast
    show ?thesis unfolding p(1) loadConfig_Holds [OF p(2)] file_group_not_null [OF p(2)]
      by simp
  qed
qed

lemma loadConfig_nested:
  "nested (loadConfig f) ''voiceSettings'' k =
     (DEFAULT_VOICE_SETTINGS ++ file_group f ''voiceSettings'') k"
  "nested (loadConfig f) ''autoSubmit'' k =
     (DEFAULT_AUTO_SUBMIT ++ file_group f ''autoSubmit'') k"
  "nested (loadConfig f) ''wisprLoop'' k =
     (DEFAULT_WISPR_LOOP ++ file_group f ''wisprLoop'') k"
  by (simp_all add: nested_def loadConfig_groups)

lemma loadConfig_nested_populated:
  "\<forall>k\<in>set voice_fields. nested (loadConfig f) ''voiceSettings'' k \<noteq> None"
  "\<forall>k\<in>set auto_submit_fields. nested (loadConfig f) ''autoSubmit'' k \<noteq> None"
  "\<forall>k\<in>set wispr_loop_fields. nested (loadConfig f) ''wisprLoop'' k \<noteq> None"
proof -
  show "\<forall>k\<in>set voice_fields. nested (loadConfig f) ''voiceSettings'' k \<noteq> None"
    unfolding loadConfig_nested
    by (rule ballI, rule map_add_populated, rule bspec [OF default_populated(2)])
  show "\<forall>k\<in>set auto_submit_fields. nested (loadConfig f) ''autoSubmit'' k \<noteq> None"
    unfolding loadConfig_nested
    by (rule ballI, rule map_add_populated, rule bspec [OF default_populated(3)])
  show "\<forall>k\<in>set wispr_loop_fields. nested (loadConfig f) ''wisprLoop'' k \<noteq> None"
    unfolding loadConfig_nested
    by (rule ballI, rule map_add_populated, rule bspec [OF default_populated(4)])
qed

lemma own_props_or_empty: "own_props (or_empty x) k = (case x of None \<Rightarrow> None | Some v \<Rightarrow> own_props v k)"
proof (cases x)
  case None
  then show ?thesis by (simp add: or_empty_def truthy_opt_def)
next
  case (Some v)
  then show ?thesis by (cases v) (simp_all add: or_empty_def truthy_opt_def)
qed


lemma map_add_apply: "(m ++ m') k = (case m' k of None \<Rightarrow> m k | Some v \<Rightarrow> Some v)"
  by (simp add: map_add_def)

lemma loadConfig_object_top:
  assumes "k \<noteq> ''voiceSettings''" "k \<noteq> ''autoSubmit''" "k \<noteq> ''wisprLoop''"
  shows "loadConfig (Holds (JObj m)) k = (case m k of None \<Rightarrow> DEFAULT_CONFIG k | Some v \<Rightarrow> Some v)"
  using assms by (auto simp: loadConfig_Holds map_add_apply)

lemma loadConfig_object_nested:
  "nested (loadConfig (Holds (JObj m))) ''voiceSettings'' k =
     (case nested m ''voiceSettings'' k of None \<Rightarrow> DEFAULT_VOICE_SETTINGS k | Some v \<Rightarrow> Some v)"
  "nested (loadConfig (Holds (JObj m))) ''autoSubmit'' k =
     (case nested m ''autoSubmit'' k of None \<Rightarrow> DEFAULT_AUTO_SUBMIT k | Some v \<Rightarrow> Some v)"
  "nested (loadConfig (Holds (JObj m))) ''wisprLoop'' k =
     (case nested m ''wisprLoop'' k of None \<Rightarrow> DEFAULT_WISPR_LOOP k | Some v \<Rightarrow> Some v)"
  unfolding loadConfig_nested
  by (simp_all add: file_group_not_null own_props_or_empty map_add_apply nested_def)

lemmas config_exec = loadConfig_def loadConfig_try_def merge_parsed_def get_prop_def
  or_empty_def truthy_opt_def nested_def map_add_apply DEFAULT_CONFIG_def
  DEFAULT_VOICE_SETTINGS_def DEFAULT_AUTO_SUBMIT_def DEFAULT_WISPR_LOOP_def

lemma maskKey_short: "length key \<le> 8 \<Longrightarrow> maskKey key = ''****''"
  by (simp add: maskKey_def)

lemma length_maskKey: "length (maskKey key) = (if length key \<le> 8 then 4 else 12)"
  by (simp add: maskKey_def)

lemma maskKey_fixed_point:
  "maskKey key = key \<longleftrightarrow> key = ''****'' \<or> (length key = 12 \<and> take 4 (drop 4 key) = ''****'')"
proof (cases "length key \<le> 8")
  case True
  then show ?thesis by (auto simp: maskKey_def)
next
  case False
  show ?thesis
  proof
    assume e: "maskKey key = key"
    then have l: "length key = 12" using length_maskKey [of key] False by simp
    from e False have "take 4 key @ ''****'' @ drop 8 key = key" by (simp add: maskKey_def l)
    then have "take 4 (drop 4 (take 4 key @ ''****'' @ drop 8 key)) = take 4 (drop 4 key)"
      by simp
    with l have "take 4 (drop 4 key) = ''****''" by simp
    with l show "key = ''****'' \<or> (length key = 12 \<and> take 4 (drop 4 key) = ''****'')" by simp
  next
    assume "key = ''****'' \<or> (length key = 12 \<and> take 4 (drop 4 key) = ''****'')"
    with False have l: "length key = 12" and m: "take 4 (drop 4 key) = ''****''" by auto
    have "key = take 4 key @ take 4 (drop 4 key) @ drop 8 key"
      by (metis append_take_drop_id drop_drop numeral_Bit0 add.commute)
    with l m show "maskKey key = key" by (simp add: maskKey_def)
  qed
qed

lemma masked_apiKey_string:
  "masked_apiKey rt (Some (JStr key)) = Inr (JStr (if key = [] then [] else maskKey key))"
  by (simp add: masked_apiKey_def truthy_opt_def maskKey_value_def)

lemma config_view_apiKey:
  "c ''apiKey'' = Some (JStr key) \<Longrightarrow>
   response_field ''apiKey'' (config_view rt c) =
     Some (JStr (if key = [] then [] else maskKey key))"
  by (simp add: config_view_def masked_apiKey_string response_field_def)

lemma post_api_config_apiKey:
  assumes "snd (saveConfig (post_updates body) w f) = Inr saved"
    and "saved ''apiKey'' = Some (JStr key)"
  shows "response_config_field ''apiKey'' (snd (post_api_config rt body w f)) =
           Some (JStr (if key = [] then [] else maskKey key))"
proof -
  obtain f' where s: "saveConfig (post_updates body) w f = (f', Inr saved)"
    using assms(1) by (cases "saveConfig (post_updates body) w f") simp
  show ?thesis
    using assms(2)
    by (simp add: post_api_config_def s config_view_def masked_apiKey_string
          response_config_field_def nested_def)
qed

lemma saveConfig_ok:
  "saveConfig config WriteOk f =
     (Holds (JObj (map_option stringify_parse \<circ> (loadConfig f ++ config))),
      Inr (loadConfig f ++ config))"
  by (simp add: saveConfig_def Let_def)

lemma partial_file_apiKey: "loadConfig partial_file ''apiKey'' = Some (JStr ''sk_0123456789abcdef'')"
  by (simp add: partial_file_def partial_object_def loadConfig_object_top)

lemma post_updates_voice_request_apiKey: "post_updates voice_request ''apiKey'' = None"
  by (simp add: post_updates_def voice_request_def)


lemma fst_post_api_config:
  "fst (post_api_config rt body w f) = fst (saveConfig (post_updates body) w f)"
  by (cases "saveConfig (post_updates body) w f")
     (simp add: post_api_config_def split: sum.splits)

lemma fst_post_ok:
  "fst (post_api_config rt body WriteOk f) =
     Holds (JObj (map_option stringify_parse \<circ> (loadConfig f ++ post_updates body)))"
  by (simp add: fst_post_api_config saveConfig_ok)

lemma stored_post:
  "stored (fst (post_api_config rt body WriteOk f)) k =
     map_option stringify_parse ((loadConfig f ++ post_updates body) k)"
  by (simp add: fst_post_ok stored_def)



lemma reload_top:
  assumes "k \<noteq> ''voiceSettings''" "k \<noteq> ''autoSubmit''" "k \<noteq> ''wisprLoop''"
    and "m k = Some v"
  shows "loadConfig (Holds (JObj (map_option stringify_parse \<circ> m))) k = Some (stringify_parse v)"
  using assms by (simp add: loadConfig_object_top)








subsection \<open>C8: loadConfig never throws and fills every field\<close>

text \<open>
  Claim C8. \<open>loadConfig\<close> returns the default configuration when config.json does not
  exist, cannot be read or is not valid JSON, and whenever its \<open>try\<close> block throws (the
  \<open>catch\<close> block falls through to the final \<open>return\<close>; nothing is rethrown). For every
  state of the file each of the seven fields of the result is present, and so is each
  field of \<open>voiceSettings\<close>, \<open>autoSubmit\<close> and \<open>wisprLoop\<close>. When the file holds an
  object, a field \<open>k\<close> other than the three nested objects has the file's value when the
  file has it and the default otherwise, and so has every field of the three nested
  objects.
\<close>

theorem loadConfig_never_throws_and_fills:
  "loadConfig Absent = DEFAULT_CONFIG \<and>
   loadConfig ReadThrows = DEFAULT_CONFIG \<and>
   loadConfig ParseThrows = DEFAULT_CONFIG \<and>
   (loadConfig_try f = Inl e \<longrightarrow> loadConfig f = DEFAULT_CONFIG) \<and>
   (\<forall>k\<in>set config_fields. loadConfig f k \<noteq> None) \<and>
   (\<forall>k\<in>set voice_fields. nested (loadConfig f) ''voiceSettings'' k \<noteq> None) \<and>
   (\<forall>k\<in>set auto_submit_fields. nested (loadConfig f) ''autoSubmit'' k \<noteq> None) \<and>
   (\<forall>k\<in>set wispr_loop_fields. nested (loadConfig f) ''wisprLoop'' k \<noteq> None) \<and>
   (f = Holds (JObj m) \<longrightarrow>
      (k \<noteq> ''voiceSettings'' \<and> k \<noteq> ''autoSubmit'' \<and> k \<noteq> ''wisprLoop'' \<longrightarrow>
         loadConfig f k = (case m k of None \<Rightarrow> DEFAULT_CONFIG k | Some v \<Rightarrow> Some v)) \<and>
      nested (loadConfig f) ''voiceSettings'' k =
        (case nested m ''voiceSettings'' k of
           None \<Rightarrow> DEFAULT_VOICE_SETTINGS k | Some v \<Rightarrow> Some v) \<and>
      nested (loadConfig f) ''autoSubmit'' k =
        (case nested m ''autoSubmit'' k of
           None \<Rightarrow> DEFAULT_AUTO_SUBMIT k | Some v \<Rightarrow> Some v) \<and>
      nested (loadConfig f) ''wisprLoop'' k =
        (case nested m ''wisprLoop'' k of
           None \<Rightarrow> DEFAULT_WISPR_LOOP k | Some v \<Rightarrow> Some v))"
proof -
  have a: "loadConfig_try f = Inl e \<longrightarrow> loadConfig f = DEFAULT_CONFIG"
    using loadConfig_throws by blast
  have b: "f = Holds (JObj m) \<longrightarrow>
      (k \<noteq> ''voiceSettings'' \<and> k \<noteq> ''autoSubmit'' \<and> k \<noteq> ''wisprLoop'' \<longrightarrow>
         loadConfig f k = (case m k of None \<Rightarrow> DEFAULT_CONFIG k | Some v \<Rightarrow> Some v)) \<and>
      nested (loadConfig f) ''voiceSettings'' k =
        (case nested m ''voiceSettings'' k of
           None \<Rightarrow> DEFAULT_VOICE_SETTINGS k | Some v \<Rightarrow> Some v) \<and>
      nested (loadConfig f) ''autoSubmit'' k =
        (case nested m ''autoSubmit'' k of
           None \<Rightarrow> DEFAULT_AUTO_SUBMIT k | Some v \<Rightarrow> Some v) \<and>
      nested (loadConfig f) ''wisprLoop'' k =
        (case nested m ''wisprLoop'' k of
           None \<Rightarrow> DEFAULT_WISPR_LOOP k | Some v \<Rightarrow> Some v)"
    using loadConfig_object_top [of k m] loadConfig_object_nested [of m k] by blast
  from a b loadConfig_simps(1,2,3) loadConfig_top_populated [of f]
    loadConfig_nested_populated [of f]
  show ?thesis by blast
qed

theorem loadConfig_never_throws_and_fills_witness:
  "loadConfig_try (Holds JNull) = Inl TypeError \<and>
   loadConfig (Holds JNull) = DEFAULT_CONFIG \<and>
   partial_file = Holds (JObj partial_object) \<and>
   loadConfig partial_file ''voiceId'' = Some (JStr ''abc'') \<and>
   loadConfig partial_file ''model'' = Some (JStr ''eleven_flash_v2_5'') \<and>
   loadConfig partial_file ''autoListen'' = Some (JBool True) \<and>
   nested (loadConfig partial_file) ''voiceSettings'' ''speed'' = Some (JNum (6 / 5)) \<and>
   nested (loadConfig partial_file) ''voiceSettings'' ''stability'' = Some (JNum (1 / 2)) \<and>
   nested (loadConfig partial_file) ''autoSubmit'' ''targetApp'' = Some (JStr ''Cursor'') \<and>
   nested (loadConfig partial_file) ''wisprLoop'' ''ttsDelay'' = Some (JNum 8)"
proof -
  have t: "loadConfig_try (Holds JNull) = Inl TypeError"
    by (simp add: loadConfig_try_def merge_parsed_def get_prop_def)
  have p: "partial_file = Holds (JObj partial_object)" by (simp add: partial_file_def)
  note th = loadConfig_never_throws_and_fills
  from th [of "Holds JNull" TypeError partial_object "''voiceId''"] t
  have n: "loadConfig (Holds JNull) = DEFAULT_CONFIG" by blast
  from th [of partial_file TypeError partial_object "''voiceId''"] p
  have v: "loadConfig partial_file ''voiceId'' = Some (JStr ''abc'')"
    by (simp add: partial_object_def)
  from th [of partial_file TypeError partial_object "''model''"] p
  have m: "loadConfig partial_file ''model'' = Some (JStr ''eleven_flash_v2_5'')"
    by (simp add: partial_object_def DEFAULT_CONFIG_def)
  from th [of partial_file TypeError partial_object "''autoListen''"] p
  have al: "loadConfig partial_file ''autoListen'' = Some (JBool True)"
    by (simp add: partial_object_def DEFAULT_CONFIG_def)
  from th [of partial_file TypeError partial_object "''speed''"] p
  have sp: "nested (loadConfig partial_file) ''voiceSettings'' ''speed'' = Some (JNum (6 / 5))"
    by (simp add: partial_object_def nested_def)
  from th [of partial_file TypeError partial_object "''stability''"] p
  have sb: "nested (loadConfig partial_file) ''voiceSettings'' ''stability'' = Some (JNum (1 / 2))"
    by (simp add: partial_object_def nested_def DEFAULT_VOICE_SETTINGS_def)
  from th [of partial_file TypeError partial_object "''targetApp''"] p
  have ta: "nested (loadConfig partial_file) ''autoSubmit'' ''targetApp'' = Some (JStr ''Cursor'')"
    by (simp add: partial_object_def nested_def DEFAULT_AUTO_SUBMIT_def)
  from th [of partial_file TypeError partial_object "''ttsDelay''"] p
  have td: "nested (loadConfig partial_file) ''wisprLoop'' ''ttsDelay'' = Some (JNum 8)"
    by (simp add: partial_object_def nested_def DEFAULT_WISPR_LOOP_def)
  from t n p v m al sp sb ta td show ?thesis by blast
qed

subsection \<open>C9: the API key in the responses of /api/config\<close>

text \<open>
  Claim C9 says that the settings API never returns the stored key in full, the field
  being \<open>maskKey(key)\<close> for every stored key. A key that has the form of a masked key is
  its own mask: once a POST has stored it, the response of that POST and every GET carry
  it in full. And for the empty key (no key set) the field is the empty string, not
  \<open>maskKey("")\<close>.
\<close>

theorem masked_key_returned_in_full:
  "stored (fst (post_api_config some_builtins masked_request WriteOk Absent)) ''apiKey'' =
     Some (JStr ''abcd****wxyz'') \<and>
   response_config_field ''apiKey''
       (snd (post_api_config some_builtins masked_request WriteOk Absent)) =
     Some (JStr ''abcd****wxyz'') \<and>
   response_field ''apiKey''
       (get_api_config some_builtins
          (fst (post_api_config some_builtins masked_request WriteOk Absent))) =
     Some (JStr ''abcd****wxyz'') \<and>
   loadConfig masked_looking_file ''apiKey'' = Some (JStr ''abcd****wxyz'') \<and>
   response_field ''apiKey'' (get_api_config some_builtins masked_looking_file) =
     Some (JStr ''abcd****wxyz'') \<and>
   loadConfig Absent ''apiKey'' = Some (JStr []) \<and>
   response_field ''apiKey'' (get_api_config some_builtins Absent) = Some (JStr []) \<and>
   maskKey [] = ''****''"
proof -
  let ?saved = "loadConfig Absent ++ post_updates masked_request"
  have u: "post_updates masked_request ''apiKey'' = Some (JStr ''abcd****wxyz'')"
    by (simp add: post_updates_def masked_request_def)
  have k: "?saved ''apiKey'' = Some (JStr ''abcd****wxyz'')"
    by (simp add: map_add_apply u)
  have m: "maskKey ''abcd****wxyz'' = ''abcd****wxyz''"
    by (simp add: maskKey_def)
  have a: "stored (fst (post_api_config some_builtins masked_request WriteOk Absent)) ''apiKey'' =
     Some (JStr ''abcd****wxyz'')"
    by (simp add: stored_post k)
  have b: "response_config_field ''apiKey''
       (snd (post_api_config some_builtins masked_request WriteOk Absent)) =
     Some (JStr ''abcd****wxyz'')"
    using post_api_config_apiKey
        [of masked_request WriteOk Absent ?saved "''abcd****wxyz''" some_builtins] k m
    by (simp add: saveConfig_ok)
  have l: "loadConfig (Holds (JObj (map_option stringify_parse \<circ> ?saved))) ''apiKey'' =
             Some (JStr ''abcd****wxyz'')"
    using reload_top [of "''apiKey''" ?saved "JStr ''abcd****wxyz''"] k by simp
  have c: "response_field ''apiKey''
       (get_api_config some_builtins
          (fst (post_api_config some_builtins masked_request WriteOk Absent))) =
     Some (JStr ''abcd****wxyz'')"
    using config_view_apiKey
        [of "loadConfig (Holds (JObj (map_option stringify_parse \<circ> ?saved)))"
            "''abcd****wxyz''" some_builtins] l m
    by (simp add: fst_post_ok get_api_config_def)
  have d: "loadConfig masked_looking_file ''apiKey'' = Some (JStr ''abcd****wxyz'') \<and>
   response_field ''apiKey'' (get_api_config some_builtins masked_looking_file) =
     Some (JStr ''abcd****wxyz'') \<and>
   loadConfig Absent ''apiKey'' = Some (JStr []) \<and>
   response_field ''apiKey'' (get_api_config some_builtins Absent) = Some (JStr []) \<and>
   maskKey [] = ''****''"
    by (simp add: masked_looking_file_def get_api_config_def config_view_def masked_apiKey_def
          maskKey_value_def response_field_def maskKey_def config_exec fallback_is_default)
  from a b c d show ?thesis by blast
qed

text \<open>
  Claim C9 as amended. \<open>maskKey\<close> returns "****" for a key of at most 8 characters;
  for a longer key it returns 12 characters: the first 4 of the key, "****", and the last
  4 of the key. It returns the key itself exactly for the key "****" and for the keys of
  12 characters whose middle four are "****". For a stored key that is a string, the field
  \<open>apiKey\<close> of the GET response, and of the \<open>config\<close> object of the POST response (for
  the key as saved), is \<open>maskKey(key)\<close> when the key is not empty and the empty string
  when it is.
\<close>

theorem api_key_is_masked:
  "(length key \<le> 8 \<longrightarrow> maskKey key = ''****'') \<and>
   (8 < length key \<longrightarrow>
      length (maskKey key) = 12 \<and>
      take 4 (maskKey key) = take 4 key \<and>
      take 4 (drop 4 (maskKey key)) = ''****'' \<and>
      drop 8 (maskKey key) = drop (length key - 4) key) \<and>
   (maskKey key = key \<longleftrightarrow>
      key = ''****'' \<or> length key = 12 \<and> take 4 (drop 4 key) = ''****'') \<and>
   (loadConfig f ''apiKey'' = Some (JStr key) \<longrightarrow>
      response_field ''apiKey'' (get_api_config rt f) =
        Some (JStr (if key = [] then [] else maskKey key))) \<and>
   (snd (saveConfig (post_updates body) w f) = Inr saved \<and> saved ''apiKey'' = Some (JStr key) \<longrightarrow>
      response_config_field ''apiKey'' (snd (post_api_config rt body w f)) =
        Some (JStr (if key = [] then [] else maskKey key)))"
proof -
  have a: "length key \<le> 8 \<longrightarrow> maskKey key = ''****''"
    by (simp add: maskKey_short)
  have b: "8 < length key \<longrightarrow>
      length (maskKey key) = 12 \<and>
      take 4 (maskKey key) = take 4 key \<and>
      take 4 (drop 4 (maskKey key)) = ''****'' \<and>
      drop 8 (maskKey key) = drop (length key - 4) key"
    by (simp add: maskKey_def)
  have d: "loadConfig f ''apiKey'' = Some (JStr key) \<longrightarrow>
      response_field ''apiKey'' (get_api_config rt f) =
        Some (JStr (if key = [] then [] else maskKey key))"
    unfolding get_api_config_def using config_view_apiKey by blast
  have e: "snd (saveConfig (post_updates body) w f) = Inr saved \<and>
      saved ''apiKey'' = Some (JStr key) \<longrightarrow>
      response_config_field ''apiKey'' (snd (post_api_config rt body w f)) =
        Some (JStr (if key = [] then [] else maskKey key))"
    using post_api_config_apiKey by blast
  from a b maskKey_fixed_point [of key] d e show ?thesis by blast
qed

theorem api_key_is_masked_witness:
  "length ''short'' \<le> 8 \<and>
   maskKey ''short'' = ''****'' \<and>
   8 < length ''sk_0123456789abcdef'' \<and>
   take 4 (maskKey ''sk_0123456789abcdef'') = ''sk_0'' \<and>
   drop 8 (maskKey ''sk_0123456789abcdef'') = ''cdef'' \<and>
   maskKey ''sk_0123456789abcdef'' \<noteq> ''sk_0123456789abcdef'' \<and>
   loadConfig partial_file ''apiKey'' = Some (JStr ''sk_0123456789abcdef'') \<and>
   response_field ''apiKey'' (get_api_config some_builtins partial_file) =
     Some (JStr ''sk_0****cdef'') \<and>
   snd (saveConfig (post_updates voice_request) WriteOk partial_file) =
     Inr (loadConfig partial_file ++ post_updates voice_request) \<and>
   (loadConfig partial_file ++ post_updates voice_request) ''apiKey'' =
     Some (JStr ''sk_0123456789abcdef'') \<and>
   response_config_field ''apiKey''
       (snd (post_api_config some_builtins voice_request WriteOk partial_file)) =
     Some (JStr ''sk_0****cdef'')"
proof -
  have s: "snd (saveConfig (post_updates voice_request) WriteOk partial_file) =
     Inr (loadConfig partial_file ++ post_updates voice_request)"
    by (simp add: saveConfig_ok)
  have k: "(loadConfig partial_file ++ post_updates voice_request) ''apiKey'' =
     Some (JStr ''sk_0123456789abcdef'')"
    by (simp add: map_add_apply post_updates_voice_request_apiKey partial_file_apiKey)
  have m: "maskKey ''sk_0123456789abcdef'' = ''sk_0****cdef''"
    by (simp add: maskKey_def)
  from api_key_is_masked [of "''short''" partial_file some_builtins voice_request WriteOk
      "loadConfig partial_file ++ post_updates voice_request"]
    api_key_is_masked [of "''sk_0123456789abcdef''" partial_file some_builtins voice_request
      WriteOk "loadConfig partial_file ++ post_updates voice_request"]
    s k partial_file_apiKey m
  show ?thesis by simp
qed


subsection \<open>C10: what a POST without an API key saves\<close>




end
